theory Spec2Isabelle
  imports Main "HOL-Library.Word"
begin

unbundle bit_operations_syntax

section \<open>Queued observer signals (FoilPicsModel::Private)\<close>

text \<open>
  The enum \<open>FoilPicsModel::Private::Signal\<close>, with its two bounds \<open>NoSignal\<close> and
  \<open>SignalCount\<close>, and the integer value of each constant.
\<close>

datatype Signal =
    NoSignal
  | SignalCountChanged
  | SignalBusyChanged
  | SignalKeyAvailableChanged
  | SignalFoilStateChanged
  | SignalThumbnailSizeChanged
  | SignalMayHaveEncryptedPicturesChanged
  | SignalCount

fun sigval :: "Signal \<Rightarrow> int" where
  "sigval NoSignal = -1"
| "sigval SignalCountChanged = 0"
| "sigval SignalBusyChanged = 1"
| "sigval SignalKeyAvailableChanged = 2"
| "sigval SignalFoilStateChanged = 3"
| "sigval SignalThumbnailSizeChanged = 4"
| "sigval SignalMayHaveEncryptedPicturesChanged = 5"
| "sigval SignalCount = 6"

text \<open>\<open>typedef uint SignalMask\<close>.\<close>

type_synonym SignalMask = "32 word"

text \<open>The static array \<open>emitSignal\<close> of \<open>emitQueuedSignals\<close>, in the order of the enum.\<close>

definition emitSignal :: "Signal list" where
  "emitSignal =
     [SignalCountChanged, SignalBusyChanged, SignalKeyAvailableChanged,
      SignalFoilStateChanged, SignalThumbnailSizeChanged,
      SignalMayHaveEncryptedPicturesChanged]"

text \<open>
  The two fields of the signal queue. \<open>queueSignal\<close> sets a bit and lowers
  \<open>iFirstQueuedSignal\<close>; a value outside the enum's range is ignored.
\<close>

record SignalQueue =
  iQueuedSignals :: SignalMask
  iFirstQueuedSignal :: int

definition queueSignal :: "Signal \<Rightarrow> 'a SignalQueue_scheme \<Rightarrow> 'a SignalQueue_scheme" where
  "queueSignal aSignal q =
     (if sigval aSignal > sigval NoSignal \<and> sigval aSignal < sigval SignalCount then
        (let signalBit = (push_bit (nat (sigval aSignal)) 1 :: SignalMask) in
         if iQueuedSignals q \<noteq> 0 then
           (let q1 = q\<lparr>iQueuedSignals := iQueuedSignals q OR signalBit\<rparr> in
            if iFirstQueuedSignal q1 > sigval aSignal
            then q1\<lparr>iFirstQueuedSignal := sigval aSignal\<rparr> else q1)
         else q\<lparr>iQueuedSignals := signalBit, iFirstQueuedSignal := sigval aSignal\<rparr>)
      else q)"

text \<open>
  The loop of \<open>emitQueuedSignals\<close>: \<open>i\<close> runs from \<open>iFirstQueuedSignal\<close> while
  \<open>i < SignalCount\<close> and the mask is not zero. A shift by a negative \<open>i\<close> is
  undefined in C++, so the loop has no result there (\<open>None\<close>). The signals emitted
  so far are collected in order.
\<close>

function emitLoop :: "int \<Rightarrow> SignalMask \<Rightarrow> Signal list \<Rightarrow> (SignalMask \<times> Signal list) option" where
  "emitLoop i queued emitted =
     (if i < sigval SignalCount \<and> queued \<noteq> 0 then
        (if i < 0 then None
         else
           (let signalBit = (push_bit (nat i) 1 :: SignalMask) in
            if queued AND signalBit \<noteq> 0
            then emitLoop (i + 1) (queued AND NOT signalBit) (emitted @ [emitSignal ! nat i])
            else emitLoop (i + 1) queued emitted))
      else Some (queued, emitted))"
  by pat_completeness auto
termination
  by (relation "measure (\<lambda>(i, queued, emitted). nat (6 - i))") auto

declare emitLoop.simps [simp del]

text \<open>
  \<open>emitQueuedSignals\<close>: nothing happens on an empty queue; otherwise the loop runs
  from \<open>iFirstQueuedSignal\<close>. The result is the queue after the loop and the signals
  emitted, in the order of emission.
\<close>

definition emitQueuedSignals ::
  "'a SignalQueue_scheme \<Rightarrow> ('a SignalQueue_scheme \<times> Signal list) option" where
  "emitQueuedSignals q =
     (if iQueuedSignals q \<noteq> 0 then
        (case emitLoop (iFirstQueuedSignal q) (iQueuedSignals q) [] of
           None \<Rightarrow> None
         | Some (queued, emitted) \<Rightarrow> Some (q\<lparr>iQueuedSignals := queued\<rparr>, emitted))
      else Some (q, []))"

text \<open>
  Two auxiliary notions for the proofs about the queue: the index a signal occupies in
  the mask (none for the two bounds of the enum), and the relation between a queue and
  the set \<open>S\<close> of indices queued in it.
\<close>

definition queue_inv :: "'a SignalQueue_scheme \<Rightarrow> nat set \<Rightarrow> bool" where
  "queue_inv q S = ((\<forall>j. bit (iQueuedSignals q) j = (j \<in> S)) \<and>
     (\<forall>j. j \<in> S \<longrightarrow> j < 6 \<and> iFirstQueuedSignal q \<le> int j) \<and>
     (S = {} \<or> 0 \<le> iFirstQueuedSignal q))"

definition valid_index :: "Signal \<Rightarrow> nat set" where
  "valid_index s = (if 0 \<le> sigval s \<and> sigval s < 6 then {nat (sigval s)} else {})"

text \<open>
  A queue is well formed when it stands in the relation \<open>queue_inv\<close> to some set of indices.
\<close>

definition queue_wf :: "'a SignalQueue_scheme \<Rightarrow> bool" where
  "queue_wf q = (\<exists>S. queue_inv q S)"

section \<open>The catalog entry (FoilPicsModel::ModelData)\<close>

text \<open>
  Qt's value types, as far as the engine looks at them. A \<open>QString\<close> is kept as the
  bytes of its UTF-8 form, a \<open>QByteArray\<close> as its bytes. Of a \<open>QImage\<close> only the
  null flag and the pixel dimensions are kept. A \<open>QDateTime\<close> is the number of
  milliseconds it is compared by.
\<close>

type_synonym QString = string
type_synonym QByteArray = "8 word list"
type_synonym QDateTime = int

record QSize =
  width :: int
  height :: int

datatype QImage = NullImage | Image int int

fun isNull :: "QImage \<Rightarrow> bool" where
  "isNull NullImage = True"
| "isNull (Image w h) = False"

fun image_size :: "QImage \<Rightarrow> QSize" where
  "image_size NullImage = \<lparr>width = 0, height = 0\<rparr>"
| "image_size (Image w h) = \<lparr>width = w, height = h\<rparr>"

datatype QVariant = Invalid | VString QString | VBytes QByteArray | VInt int

text \<open>
  The fields of \<open>ModelData\<close>. \<open>iDecryptTask\<close> is a pointer in the source; the model
  keeps whether it is set.
\<close>

record ModelData =
  iPath :: QString
  iFileName :: QString
  iThumbFile :: QString
  iTitle :: QString
  iFullSize :: QSize
  iThumbnail :: QImage
  iThumbSource :: QString
  iImageSource :: QString
  iContentType :: QString
  iOrientation :: int
  iDateTime :: QDateTime
  iBytes :: QByteArray
  iDecryptTask :: bool

text \<open>The enum \<open>ModelData::Role\<close> starts at \<open>Qt::UserRole\<close>, which is 0x0100.\<close>

definition UrlRole :: int where "UrlRole = 256"
definition ThumbnailRole :: int where "ThumbnailRole = 257"
definition DecryptedDataRole :: int where "DecryptedDataRole = 258"
definition OrientationRole :: int where "OrientationRole = 259"
definition MimeTypeRole :: int where "MimeTypeRole = 260"
definition TitleRole :: int where "TitleRole = 261"
definition FileNameRole :: int where "FileNameRole = 262"
definition ImageWidthRole :: int where "ImageWidthRole = 263"
definition ImageHeightRole :: int where "ImageHeightRole = 264"

text \<open>\<open>ModelData::get\<close>: a switch over the role, an invalid variant for any other value.\<close>

definition ModelData_get :: "ModelData \<Rightarrow> int \<Rightarrow> QVariant" where
  "ModelData_get d aRole =
     (if aRole = UrlRole then VString (iImageSource d)
      else if aRole = ThumbnailRole then VString (iThumbSource d)
      else if aRole = DecryptedDataRole then VBytes (iBytes d)
      else if aRole = OrientationRole then VInt (iOrientation d)
      else if aRole = MimeTypeRole then VString (iContentType d)
      else if aRole = TitleRole then VString (iTitle d)
      else if aRole = FileNameRole then VString (iFileName d)
      else if aRole = ImageWidthRole then VInt (width (iFullSize d))
      else if aRole = ImageHeightRole then VInt (height (iFullSize d))
      else Invalid)"

text \<open>\<open>ModelData::lessThan\<close>: most recent first.\<close>

definition lessThan_data :: "ModelData \<Rightarrow> ModelData \<Rightarrow> bool" where
  "lessThan_data aData1 aData2 = (iDateTime aData1 > iDateTime aData2)"

text \<open>
  \<open>QFileInfo::fileName\<close>: what follows the last slash of a path.
\<close>

definition fileName :: "QString \<Rightarrow> QString" where
  "fileName p = rev (takeWhile (\<lambda>c. c \<noteq> CHR ''/'') (rev p))"

section \<open>The order information (FoilPicsModel::ModelInfo)\<close>

text \<open>
  A \<open>QHash<QString,QString>\<close> is kept as an association list with one pair per key.
  \<open>insert\<close> replaces the value of a key that is present, \<open>value\<close> gives the empty
  string for a key that is absent, \<open>take\<close> removes the key and \<open>values\<close> lists the
  values in the order of the table.
\<close>

type_synonym QHash = "(QString \<times> QString) list"

fun qhash_insert :: "QString \<Rightarrow> QString \<Rightarrow> QHash \<Rightarrow> QHash" where
  "qhash_insert k v [] = [(k, v)]"
| "qhash_insert k v ((k', v') # h) =
     (if k' = k then (k, v) # h else (k', v') # qhash_insert k v h)"

definition qhash_contains :: "QHash \<Rightarrow> QString \<Rightarrow> bool" where
  "qhash_contains h k = (map_of h k \<noteq> None)"

definition qhash_value :: "QHash \<Rightarrow> QString \<Rightarrow> QString" where
  "qhash_value h k = (case map_of h k of None \<Rightarrow> [] | Some v \<Rightarrow> v)"

definition qhash_take :: "QString \<Rightarrow> QHash \<Rightarrow> QHash" where
  "qhash_take k h = filter (\<lambda>kv. fst kv \<noteq> k) h"

definition qhash_values :: "QHash \<Rightarrow> QString list" where
  "qhash_values h = map snd h"

record ModelInfo =
  iOrder :: "QString list"
  iThumbMap :: QHash

text \<open>The constructor \<open>ModelInfo(const QList<ModelData*>)\<close>: one pass over the catalog.\<close>

fun ModelInfo_of_data :: "ModelData list \<Rightarrow> ModelInfo \<Rightarrow> ModelInfo" where
  "ModelInfo_of_data [] info = info"
| "ModelInfo_of_data (d # ds) info =
     (let name = fileName (iPath d);
          info1 = info\<lparr>iOrder := iOrder info @ [name]\<rparr>;
          info2 = (if iThumbFile d \<noteq> []
                   then info1\<lparr>iThumbMap := qhash_insert name (iThumbFile d) (iThumbMap info1)\<rparr>
                   else info1)
      in ModelInfo_of_data ds info2)"

definition ModelInfo_empty :: ModelInfo where
  "ModelInfo_empty = \<lparr>iOrder = [], iThumbMap = []\<rparr>"

section \<open>The engine state (FoilPicsModel::Private)\<close>

text \<open>
  Modelled from the spec: the enum \<open>FoilState\<close> is declared in \<open>FoilPicsModel.h\<close>,
  which is not among the sources. Its nine values are the states the specification
  lists, under the names that \<open>FoilPicsModel.cpp\<close> uses for them.
\<close>

datatype FoilState =
    FoilKeyMissing
  | FoilKeyInvalid
  | FoilKeyError
  | FoilKeyNotEncrypted
  | FoilGeneratingKey
  | FoilLocked
  | FoilLockedTimedOut
  | FoilDecrypting
  | FoilPicsReady

text \<open>
  Keys are opaque to the engine: a private key is named by a number, and the public key
  is the one \<open>foil_public_key_new_from_private\<close> derives from it.
\<close>

datatype FoilPrivateKey = FoilPrivateKey nat
datatype FoilKey = PublicKeyOf FoilPrivateKey

text \<open>
  What the engine keeps of its tasks. A task in one of the two lists is named by its
  address. The catalog task and the save task carry the arguments of their constructors.
\<close>

type_synonym TaskPtr = nat

record DecryptPicsTask =
  dpt_iDir :: QString
  dpt_iPrivateKey :: "FoilPrivateKey option"
  dpt_iPublicKey :: "FoilKey option"
  dpt_iThumbSize :: QSize

record SaveInfoTask =
  sit_iInfo :: ModelInfo
  sit_iFoilDir :: QString

text \<open>
  The fields of \<open>Private\<close>, after the two fields of the signal queue. A provider is
  kept as the prefix it answers with. Calls that hand work or notifications to a
  collaborator and use no result of it (debug output, row notifications to the views,
  the thumbnail cache, task submission and release, removal of files) leave no trace
  in this state.
\<close>

record Private = SignalQueue +
  iMaxBytesToDecrypt :: nat
  iMayHaveEncryptedPictures :: bool
  iImageProvider :: "QString option"
  iThumbnailProvider :: "QString option"
  iThumbSize :: QSize
  iData :: "ModelData list"
  iFoilState :: FoilState
  iFoilPicsDir :: QString
  iPrivateKey :: "FoilPrivateKey option"
  iPublicKey :: "FoilKey option"
  iCheckPicsTask :: bool
  iSaveInfoTask :: "SaveInfoTask option"
  iGenerateKeyTask :: bool
  iDecryptPicsTask :: "DecryptPicsTask option"
  iEncryptTasks :: "TaskPtr list"
  iImageRequestTasks :: "TaskPtr list"

definition busy :: "Private \<Rightarrow> bool" where
  "busy st = (iCheckPicsTask st \<or> iSaveInfoTask st \<noteq> None \<or> iGenerateKeyTask st \<or>
     iDecryptPicsTask st \<noteq> None \<or> iEncryptTasks st \<noteq> [] \<or> iImageRequestTasks st \<noteq> [])"

text \<open>The closing lines of most operations: queue busyChanged when \<open>busy\<close> flipped.\<close>

definition queueBusyChanged :: "bool \<Rightarrow> Private \<Rightarrow> Private" where
  "queueBusyChanged wasBusy st =
     (if busy st \<noteq> wasBusy then queueSignal SignalBusyChanged st else st)"

definition dataAt :: "Private \<Rightarrow> int \<Rightarrow> ModelData option" where
  "dataAt st aIndex =
     (if aIndex \<ge> 0 \<and> aIndex < int (length (iData st))
      then Some (iData st ! nat aIndex) else None)"

definition setKeys :: "FoilPrivateKey option \<Rightarrow> FoilKey option \<Rightarrow> Private \<Rightarrow> Private" where
  "setKeys aPrivate aPublic st =
     (case aPrivate of
        Some k \<Rightarrow>
          (let st1 = (if iPrivateKey st \<noteq> None then st
                      else queueSignal SignalKeyAvailableChanged st)
           in st1\<lparr>iPrivateKey := Some k,
                  iPublicKey := (case aPublic of Some p \<Rightarrow> Some p | None \<Rightarrow> Some (PublicKeyOf k))\<rparr>)
      | None \<Rightarrow>
          (if iPrivateKey st \<noteq> None
           then (queueSignal SignalKeyAvailableChanged st)\<lparr>iPrivateKey := None, iPublicKey := None\<rparr>
           else st))"

definition setFoilState :: "FoilState \<Rightarrow> Private \<Rightarrow> Private" where
  "setFoilState aState st =
     (if iFoilState st \<noteq> aState
      then queueSignal SignalFoilStateChanged (st\<lparr>iFoilState := aState\<rparr>)
      else st)"

section \<open>Catalog operations of the engine\<close>

text \<open>
  \<open>qLowerBound\<close> is Qt's binary search over \<open>[begin, begin + n)\<close>; the comparator is
  \<open>ModelData::lessThan\<close>.
\<close>

function qLowerBound_loop :: "ModelData list \<Rightarrow> ModelData \<Rightarrow> nat \<Rightarrow> nat \<Rightarrow> nat" where
  "qLowerBound_loop xs v begin n =
     (if n > 0 then
        (let half = n div 2; middle = begin + half in
         if lessThan_data (xs ! middle) v
         then qLowerBound_loop xs v (middle + 1) (n - (half + 1))
         else qLowerBound_loop xs v begin half)
      else begin)"
  by pat_completeness auto
termination
  by (relation "measure (\<lambda>(xs, v, begin, n). n)") auto

declare qLowerBound_loop.simps [simp del]

definition qLowerBound :: "ModelData list \<Rightarrow> ModelData \<Rightarrow> nat" where
  "qLowerBound xs v = qLowerBound_loop xs v 0 (length xs)"

text \<open>
  What \<open>createForObject\<close> of the two image providers returns when the engine asks for a
  provider: the provider's prefix, or nothing.
\<close>

record ProviderFactory =
  thumbnailProviderForObject :: "QString option"
  imageProviderForObject :: "QString option"

definition insertModelData :: "ProviderFactory \<Rightarrow> ModelData \<Rightarrow> Private \<Rightarrow> Private" where
  "insertModelData env aModelData st =
     (let st1 = (if iThumbnailProvider st = None
                 then st\<lparr>iThumbnailProvider := thumbnailProviderForObject env\<rparr> else st);
          d1 = (case iThumbnailProvider st1 of
                  Some prefix \<Rightarrow> aModelData\<lparr>iThumbSource := prefix @ iPath aModelData\<rparr>
                | None \<Rightarrow> aModelData);
          st2 = (if iImageProvider st1 = None
                 then st1\<lparr>iImageProvider := imageProviderForObject env\<rparr> else st1);
          d2 = (case iImageProvider st2 of
                  Some prefix \<Rightarrow> d1\<lparr>iImageSource := prefix @ iPath d1\<rparr>
                | None \<Rightarrow> d1);
          pos = qLowerBound (iData st2) d2;
          st3 = st2\<lparr>iData := take pos (iData st2) @ d2 # drop pos (iData st2)\<rparr>;
          st4 = (if \<not> iMayHaveEncryptedPictures st3
                 then queueSignal SignalMayHaveEncryptedPicturesChanged
                        (st3\<lparr>iMayHaveEncryptedPictures := True\<rparr>)
                 else st3)
      in queueSignal SignalCountChanged st4)"

text \<open>
  \<open>destroyItemAt\<close>. Its guard lets \<open>aIndex = iData.count()\<close> through, where
  \<open>iData.at(aIndex)\<close> is out of range: no result there (\<open>None\<close>).
\<close>

definition destroyItemAt :: "int \<Rightarrow> Private \<Rightarrow> Private option" where
  "destroyItemAt aIndex st =
     (if aIndex \<ge> 0 \<and> aIndex \<le> int (length (iData st)) then
        (if aIndex < int (length (iData st)) then
           (let st1 = st\<lparr>iData := take (nat aIndex) (iData st) @ drop (Suc (nat aIndex)) (iData st)\<rparr>;
                st2 = (if iMayHaveEncryptedPictures st1
                       then queueSignal SignalMayHaveEncryptedPicturesChanged
                              (st1\<lparr>iMayHaveEncryptedPictures := False\<rparr>)
                       else st1)
            in Some (queueSignal SignalCountChanged st2))
         else None)
      else Some st)"

definition saveInfo :: "Private \<Rightarrow> Private" where
  "saveInfo st =
     (let wasBusy = busy st;
          st1 = st\<lparr>iSaveInfoTask :=
                  Some \<lparr>sit_iInfo = ModelInfo_of_data (iData st) ModelInfo_empty,
                        sit_iFoilDir = iFoilPicsDir st\<rparr>\<rparr>
      in queueBusyChanged wasBusy st1)"

definition removeAt :: "int \<Rightarrow> Private \<Rightarrow> Private option" where
  "removeAt aIndex st =
     (case dataAt st aIndex of
        Some data \<Rightarrow> map_option saveInfo (destroyItemAt aIndex st)
      | None \<Rightarrow> Some st)"

definition clearModel :: "Private \<Rightarrow> Private" where
  "clearModel st =
     (if length (iData st) > 0 then
        (let st1 = st\<lparr>iData := []\<rparr>;
             st2 = (if iMayHaveEncryptedPictures st1
                    then queueSignal SignalMayHaveEncryptedPicturesChanged
                           (st1\<lparr>iMayHaveEncryptedPictures := False\<rparr>)
                    else st1)
         in queueSignal SignalCountChanged st2)
      else st)"

definition lock :: "bool \<Rightarrow> Private \<Rightarrow> Private" where
  "lock aTimeout st =
     (let wasBusy = busy st;
          st1 = st\<lparr>iSaveInfoTask := None, iDecryptPicsTask := None,
                   iEncryptTasks := [], iImageRequestTasks := []\<rparr>;
          st2 = (if iData st1 \<noteq> []
                 then queueSignal SignalCountChanged (st1\<lparr>iData := []\<rparr>) else st1);
          st3 = queueBusyChanged wasBusy st2
      in if iPrivateKey st3 \<noteq> None
         then setFoilState (if aTimeout then FoilLockedTimedOut else FoilLocked)
                (setKeys None None st3)
         else st3)"

definition decryptAt :: "int \<Rightarrow> Private \<Rightarrow> Private" where
  "decryptAt aIndex st =
     (case dataAt st aIndex of
        Some data \<Rightarrow>
          (if \<not> iDecryptTask data then
             (let wasBusy = busy st;
                  st1 = st\<lparr>iData := (iData st)[nat aIndex := data\<lparr>iDecryptTask := True\<rparr>]\<rparr>
              in queueBusyChanged wasBusy st1)
           else st)
      | None \<Rightarrow> st)"

text \<open>
  \<open>decryptTaskDone\<close>, the body of the two slots \<open>onDecryptTaskDone\<close> (\<open>aLast\<close> true)
  and \<open>onDecryptAllProgress\<close>. \<open>aTask\<close> is nothing when the sender is not a
  \<open>DecryptTask\<close>, and otherwise what \<open>iData.indexOf(task->iData)\<close> gives: the place of
  the task's entry in the catalog, or \<open>-1\<close>. The entry's pointer to the task is
  cleared just before the entry is destroyed, which leaves no trace.
\<close>

definition decryptTaskDone :: "int option \<Rightarrow> bool \<Rightarrow> Private \<Rightarrow> (Private \<times> Signal list) option" where
  "decryptTaskDone aTask aLast st =
     (case aTask of
        Some index \<Rightarrow>
          (let wasBusy = busy st in
           case destroyItemAt index st of
             None \<Rightarrow> None
           | Some st1 \<Rightarrow>
               (let st2 = (if aLast then saveInfo st1 else st1)
                in emitQueuedSignals (queueBusyChanged wasBusy st2)))
      | None \<Rightarrow> Some (st, []))"

text \<open>The entry points \<open>FoilPicsModel::removeAt\<close> and \<open>FoilPicsModel::decryptAt\<close>.\<close>

definition FoilPicsModel_removeAt :: "int \<Rightarrow> Private \<Rightarrow> (Private \<times> Signal list) option" where
  "FoilPicsModel_removeAt aIndex st =
     (case removeAt aIndex st of None \<Rightarrow> None | Some st1 \<Rightarrow> emitQueuedSignals st1)"

definition FoilPicsModel_decryptAt :: "int \<Rightarrow> Private \<Rightarrow> (Private \<times> Signal list) option" where
  "FoilPicsModel_decryptAt aIndex st = emitQueuedSignals (decryptAt aIndex st)"

text \<open>
  The read accessors \<open>FoilPicsModel::get\<close>, which fills a \<open>QVariantMap\<close> role by role,
  and \<open>FoilPicsModel::data\<close>; \<open>aRow\<close> is the row of the model index.
\<close>

definition FoilPicsModel_get :: "Private \<Rightarrow> int \<Rightarrow> (QString \<rightharpoonup> QVariant)" where
  "FoilPicsModel_get st aIndex =
     (case dataAt st aIndex of
        Some d \<Rightarrow>
          Map.empty
            (''url'' \<mapsto> ModelData_get d UrlRole,
             ''thumbnail'' \<mapsto> ModelData_get d ThumbnailRole,
             ''decryptedData'' \<mapsto> ModelData_get d DecryptedDataRole,
             ''orientation'' \<mapsto> ModelData_get d OrientationRole,
             ''mimeType'' \<mapsto> ModelData_get d MimeTypeRole,
             ''title'' \<mapsto> ModelData_get d TitleRole,
             ''fileName'' \<mapsto> ModelData_get d FileNameRole,
             ''imageWidth'' \<mapsto> ModelData_get d ImageWidthRole,
             ''imageHeight'' \<mapsto> ModelData_get d ImageHeightRole)
      | None \<Rightarrow> Map.empty)"

definition FoilPicsModel_data :: "Private \<Rightarrow> int \<Rightarrow> int \<Rightarrow> QVariant" where
  "FoilPicsModel_data st aRow aRole =
     (case dataAt st aRow of Some d \<Rightarrow> ModelData_get d aRole | None \<Rightarrow> Invalid)"

section \<open>The cache of decrypted bytes\<close>

fun findPath_from :: "ModelData list \<Rightarrow> QString \<Rightarrow> int \<Rightarrow> int" where
  "findPath_from [] aPath i = - 1"
| "findPath_from (d # ds) aPath i =
     (if iPath d = aPath then i else findPath_from ds aPath (i + 1))"

definition findPath :: "Private \<Rightarrow> QString \<Rightarrow> int" where
  "findPath st aPath = findPath_from (iData st) aPath 0"

text \<open>
  The loop of \<open>dropDecryptedData\<close> over the entries from \<open>i\<close> on, with its two
  variables \<open>indexToDrop\<close> and \<open>maxDistance\<close>. The condition that selects one of the
  two distance formulas compares \<open>aDontTouch\<close> with \<open>indexToDrop\<close>, as the source does.
  The catalog is far shorter than \<open>2^30\<close> entries, so the sums of indices do not
  overflow an \<open>int\<close>.
\<close>

fun findIndexToDrop :: "int \<Rightarrow> int \<Rightarrow> ModelData list \<Rightarrow> int \<Rightarrow> int \<Rightarrow> int \<Rightarrow> int" where
  "findIndexToDrop aDontTouch n [] i indexToDrop maxDistance = indexToDrop"
| "findIndexToDrop aDontTouch n (d # ds) i indexToDrop maxDistance =
     (if i \<noteq> aDontTouch \<and> iBytes d \<noteq> [] then
        (let distance =
               (if aDontTouch > indexToDrop
                then min (aDontTouch - i) (i + n - aDontTouch)
                else min (i - aDontTouch) (aDontTouch + n - i))
         in if indexToDrop < 0 \<or> distance > maxDistance
            then findIndexToDrop aDontTouch n ds (i + 1) i distance
            else findIndexToDrop aDontTouch n ds (i + 1) indexToDrop maxDistance)
      else findIndexToDrop aDontTouch n ds (i + 1) indexToDrop maxDistance)"

definition indexToDrop_of :: "ModelData list \<Rightarrow> int \<Rightarrow> int" where
  "indexToDrop_of xs aDontTouch =
     findIndexToDrop aDontTouch (int (length xs)) xs 0 (- 1) (- 1)"

definition dropDecryptedData :: "int \<Rightarrow> Private \<Rightarrow> bool \<times> Private" where
  "dropDecryptedData aDontTouch st =
     (let indexToDrop = indexToDrop_of (iData st) aDontTouch in
      if indexToDrop \<ge> 0
      then (True, st\<lparr>iData := (iData st)[nat indexToDrop :=
                         (iData st ! nat indexToDrop)\<lparr>iBytes := []\<rparr>]\<rparr>)
      else (False, st))"

text \<open>
  The loop of \<open>tooMuchDataDecrypted\<close>. \<open>totalSize\<close> is a \<open>size_t\<close>; the byte arrays
  it adds up are all held in memory at once, so the sum stays below the range of
  \<open>size_t\<close> and is a natural number here.
\<close>

fun tooMuch_loop :: "nat \<Rightarrow> ModelData list \<Rightarrow> int \<Rightarrow> nat \<Rightarrow> bool" where
  "tooMuch_loop mx [] count totalSize = False"
| "tooMuch_loop mx (d # ds) count totalSize =
     (if iBytes d \<noteq> [] then
        (let count1 = count + 1; totalSize1 = totalSize + length (iBytes d) in
         if count1 > 1 \<and> totalSize1 > mx then True
         else tooMuch_loop mx ds count1 totalSize1)
      else tooMuch_loop mx ds count totalSize)"

definition tooMuchDataDecrypted :: "Private \<Rightarrow> bool" where
  "tooMuchDataDecrypted st = tooMuch_loop (iMaxBytesToDecrypt st) (iData st) 0 0"

text \<open>The number of entries that hold decrypted bytes, and the bytes they hold in all.\<close>

definition populated :: "ModelData list \<Rightarrow> nat" where
  "populated xs = length (filter (\<lambda>d. iBytes d \<noteq> []) xs)"

definition total_bytes :: "ModelData list \<Rightarrow> nat" where
  "total_bytes xs = sum_list (map (\<lambda>d. length (iBytes d)) xs)"

text \<open>
  The circular distance in the words of the specification:
  \<open>distance(i, k) = min((k - i) mod n, (i - k) mod n)\<close>.
\<close>

definition spec_circular_distance :: "int \<Rightarrow> int \<Rightarrow> int \<Rightarrow> int" where
  "spec_circular_distance n k i = min ((k - i) mod n) ((i - k) mod n)"

text \<open>
  What the search of \<open>dropDecryptedData\<close> returns: the index it started with, or the
  index of an entry other than \<open>aDontTouch\<close> that holds bytes; and it finds one when
  there is one. The loop below terminates by these facts.
\<close>

lemma findIndexToDrop_result:
  "findIndexToDrop k n ds i idx md = idx \<or>
   (\<exists>j < length ds. findIndexToDrop k n ds i idx md = i + int j \<and> iBytes (ds ! j) \<noteq> [] \<and> i + int j \<noteq> k)"
proof (induction ds arbitrary: i idx md)
  case Nil
  then show ?case by simp
next
  case (Cons d ds)
  have step: "\<And>idx' md'. findIndexToDrop k n ds (i + 1) idx' md' = idx' \<or>
      (\<exists>j < length (d # ds). findIndexToDrop k n ds (i + 1) idx' md' = i + int j \<and>
          iBytes ((d # ds) ! j) \<noteq> [] \<and> i + int j \<noteq> k)"
  proof -
    fix idx' md'
    from Cons.IH [of "i + 1" idx' md'] show "?thesis idx' md'"
    proof
      assume "findIndexToDrop k n ds (i + 1) idx' md' = idx'"
      then show ?thesis by simp
    next
      assume "\<exists>j<length ds. findIndexToDrop k n ds (i + 1) idx' md' = i + 1 + int j \<and>
          iBytes (ds ! j) \<noteq> [] \<and> i + 1 + int j \<noteq> k"
      then obtain j where j: "j < length ds" "findIndexToDrop k n ds (i + 1) idx' md' = i + 1 + int j"
        "iBytes (ds ! j) \<noteq> []" "i + 1 + int j \<noteq> k" by blast
      then have "Suc j < length (d # ds) \<and> findIndexToDrop k n ds (i + 1) idx' md' = i + int (Suc j) \<and>
          iBytes ((d # ds) ! Suc j) \<noteq> [] \<and> i + int (Suc j) \<noteq> k" by simp
      then show ?thesis by blast
    qed
  qed
  show ?case
  proof (cases "i \<noteq> k \<and> iBytes d \<noteq> []")
    case False
    then show ?thesis using step [of idx md] by auto
  next
    case True
    define dist where "dist = (if k > idx then min (k - i) (i + n - k) else min (i - k) (k + n - i))"
    show ?thesis
    proof (cases "idx < 0 \<or> dist > md")
      case c: True
      then have eq: "findIndexToDrop k n (d # ds) i idx md = findIndexToDrop k n ds (i + 1) i dist"
        using True by (simp add: dist_def Let_def)
      from step [of i dist] show ?thesis
      proof
        assume "findIndexToDrop k n ds (i + 1) i dist = i"
        with eq True have "0 < length (d # ds) \<and> findIndexToDrop k n (d # ds) i idx md = i + int 0 \<and>
          iBytes ((d # ds) ! 0) \<noteq> [] \<and> i + int 0 \<noteq> k" by simp
        then show ?thesis by blast
      next
        assume "\<exists>j<length (d # ds). findIndexToDrop k n ds (i + 1) i dist = i + int j \<and>
          iBytes ((d # ds) ! j) \<noteq> [] \<and> i + int j \<noteq> k"
        then show ?thesis unfolding eq by blast
      qed
    next
      case c: False
      then have eq: "findIndexToDrop k n (d # ds) i idx md = findIndexToDrop k n ds (i + 1) idx md"
        using True by (simp add: dist_def Let_def)
      from step [of idx md] show ?thesis unfolding eq by blast
    qed
  qed
qed

lemma findIndexToDrop_nonneg:
  "0 \<le> idx \<Longrightarrow> 0 \<le> i \<Longrightarrow> 0 \<le> findIndexToDrop k n ds i idx md"
  using findIndexToDrop_result [of k n ds i idx md] by auto

lemma findIndexToDrop_finds:
  "0 \<le> i \<Longrightarrow> j < length ds \<Longrightarrow> iBytes (ds ! j) \<noteq> [] \<Longrightarrow> i + int j \<noteq> k \<Longrightarrow>
   0 \<le> findIndexToDrop k n ds i idx md"
proof (induction ds arbitrary: i j idx md)
  case Nil
  then show ?case by simp
next
  case (Cons d ds)
  show ?case
  proof (cases j)
    case 0
    with Cons.prems have c: "i \<noteq> k \<and> iBytes d \<noteq> []" by simp
    show ?thesis
    proof (cases "0 \<le> idx")
      case True
      then show ?thesis using Cons.prems(1) by (rule findIndexToDrop_nonneg)
    next
      case False
      then show ?thesis using c Cons.prems(1)
        by (simp add: Let_def findIndexToDrop_nonneg)
    qed
  next
    case (Suc j')
    with Cons.prems have p: "0 \<le> i + 1" "j' < length ds" "iBytes (ds ! j') \<noteq> []" "i + 1 + int j' \<noteq> k"
      by simp_all
    show ?thesis
      using Cons.IH [OF p] by (simp add: Let_def)
  qed
qed

lemma indexToDrop_of_cases:
  "indexToDrop_of xs k = - 1 \<or>
   (\<exists>j < length xs. indexToDrop_of xs k = int j \<and> iBytes (xs ! j) \<noteq> [] \<and> int j \<noteq> k)"
  using findIndexToDrop_result [of k "int (length xs)" xs 0 "- 1" "- 1"]
  by (simp add: indexToDrop_of_def)

lemma indexToDrop_of_none:
  "indexToDrop_of xs k < 0 \<Longrightarrow> j < length xs \<Longrightarrow> int j \<noteq> k \<Longrightarrow> iBytes (xs ! j) = []"
  using findIndexToDrop_finds [of 0 j xs k "int (length xs)" "- 1" "- 1"]
  by (auto simp: indexToDrop_of_def)

lemma populated_clear:
  "j < length xs \<Longrightarrow> iBytes (xs ! j) \<noteq> [] \<Longrightarrow>
   Suc (populated (xs[j := (xs ! j)\<lparr>iBytes := []\<rparr>])) = populated xs"
proof (induction xs arbitrary: j)
  case Nil
  then show ?case by simp
next
  case (Cons x xs)
  then show ?case by (cases j) (simp_all add: populated_def)
qed

lemma dropDecryptedData_populated:
  "dropDecryptedData k st = (True, st') \<Longrightarrow> populated (iData st') < populated (iData st)"
proof -
  assume a: "dropDecryptedData k st = (True, st')"
  then have nn: "0 \<le> indexToDrop_of (iData st) k"
    by (auto simp: dropDecryptedData_def Let_def split: if_splits)
  with indexToDrop_of_cases [of "iData st" k] obtain j where
    j: "j < length (iData st)" "indexToDrop_of (iData st) k = int j" "iBytes (iData st ! j) \<noteq> []"
    by auto
  from a nn j have "iData st' = (iData st)[j := (iData st ! j)\<lparr>iBytes := []\<rparr>]"
    by (auto simp: dropDecryptedData_def Let_def)
  with populated_clear [OF j(1) j(3)] show ?thesis by simp
qed

text \<open>
  The loop of \<open>onImageRequestDone\<close>:
  \<open>while (tooMuchDataDecrypted() && dropDecryptedData(index));\<close>
\<close>

function evictLoop :: "int \<Rightarrow> Private \<Rightarrow> Private" where
  "evictLoop index st =
     (if tooMuchDataDecrypted st then
        (case dropDecryptedData index st of
           (True, st1) \<Rightarrow> evictLoop index st1
         | (False, st1) \<Rightarrow> st1)
      else st)"
  by pat_completeness auto
termination
  apply (relation "measure (\<lambda>(index, st). populated (iData st))")
   apply simp
  apply (simp add: dropDecryptedData_populated [OF sym])
  done

declare evictLoop.simps [simp del]

text \<open>
  A finished \<open>ImageRequestTask\<close> as the slot \<open>onImageRequestDone\<close> sees it: its
  address, its path, and the bytes it holds when it is done.
\<close>

record ImageRequestTask =
  irt_ptr :: TaskPtr
  irt_iPath :: QString
  irt_iBytes :: QByteArray
  irt_iContentType :: QString

definition onImageRequestDone :: "ImageRequestTask \<Rightarrow> Private \<Rightarrow> (Private \<times> Signal list) option" where
  "onImageRequestDone task st =
     (let wasBusy = busy st;
          st1 = st\<lparr>iImageRequestTasks := removeAll (irt_ptr task) (iImageRequestTasks st)\<rparr>;
          st2 = (if irt_iBytes task \<noteq> [] then
                   (let index = findPath st1 (irt_iPath task) in
                    if index \<ge> 0 then
                      evictLoop index
                        (st1\<lparr>iData := (iData st1)[nat index :=
                                 (iData st1 ! nat index)\<lparr>iBytes := irt_iBytes task\<rparr>]\<rparr>)
                    else st1)
                 else st1)
      in emitQueuedSignals (queueBusyChanged wasBusy st2))"

text \<open>
  The budget of the cache: the bytes held are within \<open>iMaxBytesToDecrypt\<close>, or at most
  one entry holds bytes.
\<close>

definition cache_ok :: "Private \<Rightarrow> bool" where
  "cache_ok st =
     (total_bytes (iData st) \<le> iMaxBytesToDecrypt st \<or> populated (iData st) \<le> 1)"

section \<open>Construction, locking and unlocking\<close>

text \<open>
  \<open>QFileInfo::baseName\<close>: the file name up to its first dot. It is the default title.
\<close>

definition baseName :: "QString \<Rightarrow> QString" where
  "baseName p = takeWhile (\<lambda>c. c \<noteq> CHR ''.'') (fileName p)"

definition defaultTitle :: "QString \<Rightarrow> QString" where
  "defaultTitle aPath = baseName aPath"

text \<open>
  The constructor of \<open>ModelData\<close>. \<open>aContentType\<close> is a C string that may be null.
  The fields the constructor does not mention start empty.
\<close>

definition ModelData_new ::
  "QString \<Rightarrow> QString \<Rightarrow> QSize \<Rightarrow> QString \<Rightarrow> QImage \<Rightarrow> QString \<Rightarrow> QString option \<Rightarrow> int \<Rightarrow>
   QDateTime \<Rightarrow> ModelData" where
  "ModelData_new aOriginalPath aPath aFullSize aThumbFile aThumbImage aTitle aContentType
       aOrientation aDateTime =
     \<lparr>iPath = aPath,
      iFileName = fileName aOriginalPath,
      iThumbFile = aThumbFile,
      iTitle = (if aTitle = [] then defaultTitle aOriginalPath else aTitle),
      iFullSize = aFullSize,
      iThumbnail = aThumbImage,
      iThumbSource = [],
      iImageSource = [],
      iContentType = (case aContentType of Some t \<Rightarrow> t | None \<Rightarrow> []),
      iOrientation = aOrientation,
      iDateTime = aDateTime,
      iBytes = [],
      iDecryptTask = False\<rparr>"

text \<open>
  The key file as the engine sees it: the outcome of
  \<open>foil_private_key_decrypt_from_file\<close> for a passphrase, or for none (\<open>NULL\<close>). An
  error is of the domain \<open>FOIL_ERROR\<close>, with the code \<open>FOIL_ERROR_KEY_ENCRYPTED\<close> or
  another code, or of another domain.
\<close>

datatype GError = FOIL_ERROR_KEY_ENCRYPTED | FOIL_ERROR_other_code | Other_domain

datatype KeyResult = Key FoilPrivateKey | Failed GError

type_synonym KeyFile = "QString option \<Rightarrow> KeyResult"

text \<open>
  The constructor of \<open>Private\<close>: \<open>aMaxBytes\<close> is what \<open>maxBytesToDecrypt()\<close> returns
  and \<open>aHome\<close> the home directory; the first state comes from the key file, and the
  check of the vault directory is submitted.
\<close>

definition Private_new :: "nat \<Rightarrow> KeyFile \<Rightarrow> QString \<Rightarrow> Private" where
  "Private_new aMaxBytes keyFile aHome =
     \<lparr>iQueuedSignals = 0,
      iFirstQueuedSignal = sigval NoSignal,
      iMaxBytesToDecrypt = aMaxBytes,
      iMayHaveEncryptedPictures = False,
      iImageProvider = None,
      iThumbnailProvider = None,
      iThumbSize = \<lparr>width = 32, height = 32\<rparr>,
      iData = [],
      iFoilState =
        (case keyFile None of
           Key key \<Rightarrow> FoilKeyNotEncrypted
         | Failed FOIL_ERROR_KEY_ENCRYPTED \<Rightarrow> FoilLocked
         | Failed FOIL_ERROR_other_code \<Rightarrow> FoilKeyInvalid
         | Failed Other_domain \<Rightarrow> FoilKeyMissing),
      iFoilPicsDir = aHome @ ''/Documents/FoilPics'',
      iPrivateKey = None,
      iPublicKey = None,
      iCheckPicsTask = True,
      iSaveInfoTask = None,
      iGenerateKeyTask = False,
      iDecryptPicsTask = None,
      iEncryptTasks = [],
      iImageRequestTasks = []\<rparr>"

text \<open>\<open>Private::unlock\<close>: the result is the flag \<open>ok\<close> and the state.\<close>

definition unlock :: "KeyFile \<Rightarrow> QString \<Rightarrow> Private \<Rightarrow> bool \<times> Private" where
  "unlock keyFile aPassword st =
     (case keyFile None of
        Key key \<Rightarrow> (False, setFoilState FoilKeyNotEncrypted st)
      | Failed error \<Rightarrow>
          (case error of
             FOIL_ERROR_KEY_ENCRYPTED \<Rightarrow>
               (case keyFile (Some aPassword) of
                  Key key \<Rightarrow>
                    (let st1 = setKeys (Some key) None st;
                         st2 = st1\<lparr>iDecryptPicsTask :=
                                 Some \<lparr>dpt_iDir = iFoilPicsDir st1,
                                       dpt_iPrivateKey = iPrivateKey st1,
                                       dpt_iPublicKey = iPublicKey st1,
                                       dpt_iThumbSize = iThumbSize st1\<rparr>\<rparr>;
                         st3 = clearModel st2
                     in (True, setFoilState FoilDecrypting st3))
                | Failed error2 \<Rightarrow> (False, setFoilState FoilLocked st))
           | FOIL_ERROR_other_code \<Rightarrow> (False, setFoilState FoilKeyInvalid st)
           | Other_domain \<Rightarrow> (False, setFoilState FoilKeyMissing st)))"

text \<open>The entry points \<open>FoilPicsModel::unlock\<close> and \<open>FoilPicsModel::lock\<close>.\<close>

definition FoilPicsModel_unlock ::
  "KeyFile \<Rightarrow> QString \<Rightarrow> Private \<Rightarrow> (bool \<times> Private \<times> Signal list) option" where
  "FoilPicsModel_unlock keyFile aPassword st =
     (case unlock keyFile aPassword st of
        (ok, st1) \<Rightarrow> map_option (\<lambda>r. (ok, r)) (emitQueuedSignals st1))"

definition FoilPicsModel_lock :: "bool \<Rightarrow> Private \<Rightarrow> (Private \<times> Signal list) option" where
  "FoilPicsModel_lock aTimeout st = emitQueuedSignals (lock aTimeout st)"

text \<open>
  The slot \<open>onDecryptPicsProgress\<close>: \<open>aProgress\<close> is the entry the message carries when
  the message is there and comes from the current catalog task, and nothing otherwise.
\<close>

definition onDecryptPicsProgress ::
  "ProviderFactory \<Rightarrow> ModelData option \<Rightarrow> Private \<Rightarrow> (Private \<times> Signal list) option" where
  "onDecryptPicsProgress env aProgress st =
     emitQueuedSignals
       (case aProgress of Some d \<Rightarrow> insertModelData env d st | None \<Rightarrow> st)"

section \<open>The operations that write the catalog, as one step\<close>

text \<open>
  A finished \<open>EncryptTask\<close> as the slot \<open>onEncryptTaskDone\<close> sees it: its address and
  the entry it produced, if it produced one.
\<close>

record EncryptTaskDone =
  et_ptr :: TaskPtr
  et_iData :: "ModelData option"

definition onEncryptTaskDone ::
  "ProviderFactory \<Rightarrow> EncryptTaskDone \<Rightarrow> Private \<Rightarrow> (Private \<times> Signal list) option" where
  "onEncryptTaskDone env task st =
     (let wasBusy = busy st;
          st1 = st\<lparr>iEncryptTasks := removeAll (et_ptr task) (iEncryptTasks st)\<rparr>;
          st2 = (case et_iData task of
                   Some d \<Rightarrow> saveInfo (insertModelData env d st1)
                 | None \<Rightarrow> st1)
      in emitQueuedSignals (queueBusyChanged wasBusy st2))"

text \<open>
  \<open>decryptAll\<close>: a task is attached to every entry that has none, from the last entry
  down to the second, and then to the first.
\<close>

definition attachDecryptTask :: "nat \<Rightarrow> ModelData list \<Rightarrow> ModelData list" where
  "attachDecryptTask i xs =
     (if \<not> iDecryptTask (xs ! i) then xs[i := (xs ! i)\<lparr>iDecryptTask := True\<rparr>] else xs)"

fun decryptAll_loop :: "nat \<Rightarrow> ModelData list \<Rightarrow> ModelData list" where
  "decryptAll_loop 0 xs = xs"
| "decryptAll_loop (Suc i) xs = decryptAll_loop i (attachDecryptTask (Suc i) xs)"

definition decryptAll :: "Private \<Rightarrow> Private" where
  "decryptAll st =
     (if iData st \<noteq> [] then
        (let wasBusy = busy st;
             n = length (iData st);
             st1 = st\<lparr>iData := attachDecryptTask 0 (decryptAll_loop (n - 1) (iData st))\<rparr>
         in queueBusyChanged wasBusy st1)
      else st)"

definition FoilPicsModel_decryptAll :: "Private \<Rightarrow> (Private \<times> Signal list) option" where
  "FoilPicsModel_decryptAll st = emitQueuedSignals (decryptAll st)"

text \<open>
  The entry points and slots of the engine that write \<open>iData\<close>, each with its
  arguments, and what each does to the state. The other entry points and slots
  (key generation, password change, the vault check, the end of the save and catalog
  tasks, \<open>imageRequest\<close>, \<open>encryptFile\<close>, \<open>setThumbnailSize\<close>) do not write \<open>iData\<close>.
\<close>

datatype Operation =
    OpRemoveAt int
  | OpDecryptAt int
  | OpDecryptAll
  | OpLock bool
  | OpUnlock KeyFile QString
  | OpImageRequestDone ImageRequestTask
  | OpDecryptTaskDone "int option" bool
  | OpDecryptPicsProgress ProviderFactory "ModelData option"
  | OpEncryptTaskDone ProviderFactory EncryptTaskDone

fun perform :: "Operation \<Rightarrow> Private \<Rightarrow> (Private \<times> Signal list) option" where
  "perform (OpRemoveAt i) st = FoilPicsModel_removeAt i st"
| "perform (OpDecryptAt i) st = FoilPicsModel_decryptAt i st"
| "perform OpDecryptAll st = FoilPicsModel_decryptAll st"
| "perform (OpLock t) st = FoilPicsModel_lock t st"
| "perform (OpUnlock kf pw) st = map_option snd (FoilPicsModel_unlock kf pw st)"
| "perform (OpImageRequestDone task) st = onImageRequestDone task st"
| "perform (OpDecryptTaskDone aTask aLast) st = decryptTaskDone aTask aLast st"
| "perform (OpDecryptPicsProgress env aProgress) st = onDecryptPicsProgress env aProgress st"
| "perform (OpEncryptTaskDone env task) st = onEncryptTaskDone env task st"

text \<open>
  The arguments an operation can arrive with: an entry that a task hands over comes
  from the constructor of \<open>ModelData\<close> and holds no decrypted bytes, and the index that
  \<open>indexOf\<close> gives is below the length of the catalog.
\<close>

fun arguments_ok :: "Operation \<Rightarrow> Private \<Rightarrow> bool" where
  "arguments_ok (OpDecryptTaskDone (Some i) aLast) st = (- 1 \<le> i \<and> i < int (length (iData st)))"
| "arguments_ok (OpDecryptPicsProgress env (Some d)) st = (iBytes d = [])"
| "arguments_ok (OpEncryptTaskDone env task) st =
     (case et_iData task of Some d \<Rightarrow> iBytes d = [] | None \<Rightarrow> True)"
| "arguments_ok other st = True"

section \<open>Envelopes and the order file\<close>

text \<open>
  A decrypted envelope (\<open>FoilMsg\<close>) as the engine reads it: the headers in their order,
  the content type (a C string that may be null) and the payload.
  \<open>foilmsg_get_value\<close> gives the value of the first header of a name.
\<close>

record FoilMsg =
  headers :: "(string \<times> string) list"
  content_type :: "string option"
  data :: QByteArray

definition foilmsg_get_value :: "FoilMsg \<Rightarrow> string \<Rightarrow> string option" where
  "foilmsg_get_value msg key = map_of (headers msg) key"

definition INFO_ORDER_HEADER :: string where "INFO_ORDER_HEADER = ''Order''"
definition INFO_ORDER_DELIMITER :: char where "INFO_ORDER_DELIMITER = CHR '',''"
definition INFO_ORDER_THUMB_DELIMITER :: char where "INFO_ORDER_THUMB_DELIMITER = CHR '':''"
definition INFO_CONTENTS :: QByteArray where
  "INFO_CONTENTS = map of_char ''FoilPics''"

text \<open>
  The C library and GLib on strings of bytes. A C string ends at its first NUL; the
  values of the headers that the engine writes are cut there. Paths and passphrases
  hold no NUL, and the model hands them to the C functions as they are.
  \<open>g_strsplit\<close> with no limit cuts at every delimiter and gives no token at all for
  the empty string. \<open>g_strstrip\<close> removes the leading and trailing characters that
  \<open>g_ascii_isspace\<close> accepts: space, tab, line feed, form feed, carriage return.
\<close>

definition c_str :: "string \<Rightarrow> string" where
  "c_str s = takeWhile (\<lambda>c. c \<noteq> CHR 0x00) s"

fun strsplit :: "char \<Rightarrow> string \<Rightarrow> string list" where
  "strsplit d [] = [[]]"
| "strsplit d (c # cs) =
     (if c = d then [] # strsplit d cs
      else (c # hd (strsplit d cs)) # tl (strsplit d cs))"

definition g_strsplit :: "string \<Rightarrow> char \<Rightarrow> string list" where
  "g_strsplit s d = (if s = [] then [] else strsplit d s)"

definition g_ascii_isspace :: "char \<Rightarrow> bool" where
  "g_ascii_isspace c =
     (c = CHR '' '' \<or> c = CHR 0x09 \<or> c = CHR 0x0A \<or> c = CHR 0x0C \<or> c = CHR 0x0D)"

definition g_strstrip :: "string \<Rightarrow> string" where
  "g_strstrip s = rev (dropWhile g_ascii_isspace (rev (dropWhile g_ascii_isspace s)))"

text \<open>
  \<open>QLatin1String\<close> reads every byte as one character; in the UTF-8 form of a \<open>QString\<close>
  a byte from 0x80 on becomes two bytes. \<open>QString(const char*)\<close> reads UTF-8 and
  \<open>toUtf8\<close> writes it, so both keep the bytes.
\<close>

definition fromLatin1 :: "string \<Rightarrow> QString" where
  "fromLatin1 s =
     concat (map (\<lambda>c. if (of_char c :: nat) < 128 then [c]
                       else [char_of (192 + (of_char c :: nat) div 64),
                             char_of (128 + (of_char c :: nat) mod 64)]) s)"

text \<open>
  The loop of \<open>ModelInfo::save\<close> that builds the value of the \<open>Order\<close> header in \<open>buf\<close>,
  and the envelope that \<open>save\<close> hands to \<open>foilmsg_encrypt\<close> once the output file is
  open: the header value as a C string, no content type, the fixed payload.
\<close>

fun save_loop :: "QHash \<Rightarrow> QString list \<Rightarrow> QString \<Rightarrow> QString" where
  "save_loop thumbMap [] buf = buf"
| "save_loop thumbMap (img # rest) buf =
     (let buf1 = (if buf \<noteq> [] then buf @ [INFO_ORDER_DELIMITER] else buf);
          thumb = qhash_value thumbMap img;
          buf2 = buf1 @ img;
          buf3 = (if thumb \<noteq> [] then buf2 @ [INFO_ORDER_THUMB_DELIMITER] @ thumb else buf2)
      in save_loop thumbMap rest buf3)"

definition ModelInfo_save :: "ModelInfo \<Rightarrow> FoilMsg" where
  "ModelInfo_save info =
     \<lparr>headers = [(INFO_ORDER_HEADER, c_str (save_loop (iThumbMap info) (iOrder info) []))],
      content_type = None,
      data = INFO_CONTENTS\<rparr>"

text \<open>The constructor \<open>ModelInfo(const FoilMsg*)\<close>: the loop over the tokens.\<close>

fun parse_order :: "string list \<Rightarrow> ModelInfo \<Rightarrow> ModelInfo" where
  "parse_order [] info = info"
| "parse_order (tok # rest) info =
     (let name = g_strstrip tok in
      if name \<noteq> [] then
        (if INFO_ORDER_THUMB_DELIMITER \<in> set name then
           (let img = fromLatin1 (takeWhile (\<lambda>c. c \<noteq> INFO_ORDER_THUMB_DELIMITER) name);
                thumb = fromLatin1 (tl (dropWhile (\<lambda>c. c \<noteq> INFO_ORDER_THUMB_DELIMITER) name))
            in parse_order rest
                 (info\<lparr>iOrder := iOrder info @ [img],
                        iThumbMap := qhash_insert img thumb (iThumbMap info)\<rparr>))
         else parse_order rest (info\<lparr>iOrder := iOrder info @ [name]\<rparr>))
      else parse_order rest info)"

definition ModelInfo_of_msg :: "FoilMsg \<Rightarrow> ModelInfo" where
  "ModelInfo_of_msg msg =
     (case foilmsg_get_value msg INFO_ORDER_HEADER of
        Some order \<Rightarrow> parse_order (g_strsplit order INFO_ORDER_DELIMITER) ModelInfo_empty
      | None \<Rightarrow> ModelInfo_empty)"

text \<open>
  A name that comes back from the order file as it went in: not empty, without comma,
  colon or NUL, and without white space at either end. A name of ASCII characters only
  is the same in Latin-1 and UTF-8.
\<close>

definition is_space :: "char \<Rightarrow> bool" where
  "is_space c = (g_ascii_isspace c \<or> c = CHR 0x0B)"

definition legal_name :: "QString \<Rightarrow> bool" where
  "legal_name n =
     (n \<noteq> [] \<and> CHR '','' \<notin> set n \<and> CHR '':'' \<notin> set n \<and> CHR 0x00 \<notin> set n \<and>
      \<not> is_space (hd n) \<and> \<not> is_space (last n))"

definition ascii :: "QString \<Rightarrow> bool" where
  "ascii n = list_all (\<lambda>c. (of_char c :: nat) < 128) n"

definition legal_order :: "ModelInfo \<Rightarrow> bool" where
  "legal_order info =
     (list_all legal_name (iOrder info) \<and>
      list_all (\<lambda>n. qhash_value (iThumbMap info) n = [] \<or>
                    (legal_name (qhash_value (iThumbMap info) n) \<and>
                     ascii n \<and> ascii (qhash_value (iThumbMap info) n))) (iOrder info) \<and>
      list_all (\<lambda>kv. snd kv = [] \<or> fst kv \<in> set (iOrder info)) (iThumbMap info))"

text \<open>
  For the proofs: the token \<open>save\<close> writes for an image, and tokens joined by commas.
\<close>

definition order_token :: "QHash \<Rightarrow> QString \<Rightarrow> string" where
  "order_token m n = (if qhash_value m n \<noteq> [] then n @ CHR '':'' # qhash_value m n else n)"

fun join_tokens :: "string list \<Rightarrow> string" where
  "join_tokens [] = []"
| "join_tokens [t] = t"
| "join_tokens (t # ts) = t @ CHR '','' # join_tokens ts"

section \<open>Thumbnails (ModelData::thumbnail)\<close>

text \<open>
  \<open>ModelData::format\<close>: the image format for a content type, by exact match in the
  sorted table, and nothing for a null or empty content type or an unknown one.
\<close>

definition formatMap :: "(string \<times> string) list" where
  "formatMap =
     [(''image/bmp'', ''BMP''),
      (''image/gif'', ''GIF''),
      (''image/jpeg'', ''JPEG''),
      (''image/jpg'', ''JPEG''),
      (''image/png'', ''PNG''),
      (''image/svg+xml'', ''SVG''),
      (''image/tif'', ''TIFF''),
      (''image/tiff'', ''TIFF''),
      (''image/x-bmp'', ''BMP''),
      (''image/x-portable-bitmap'', ''PBM''),
      (''image/x-portable-graymap'', ''PGM''),
      (''image/x-portable-pixmap'', ''PPM'')]"

definition format :: "string option \<Rightarrow> string option" where
  "format aContentType =
     (case aContentType of
        None \<Rightarrow> None
      | Some t \<Rightarrow> (if t \<noteq> [] then map_of formatMap t else None))"

text \<open>
  The functions of Qt's \<open>QImage\<close> that the engine calls are not part of the engine;
  they are parameters of the model. \<open>fromData\<close> decodes bytes with a format hint,
  \<open>save\<close> encodes an image, \<open>scaledToHeight\<close> and \<open>scaledToWidth\<close> scale smoothly,
  \<open>copy\<close> cuts the rectangle \<open>(x, y, w, h)\<close>, and \<open>transformed img size angle\<close> is
  \<open>img.transformed(QTransform::fromTranslate(x, y).rotate(angle).translate(-x, -y))\<close> for
  the centre \<open>(x, y)\<close> of \<open>size\<close>.
\<close>

record QtImage =
  fromData :: "QByteArray \<Rightarrow> string option \<Rightarrow> QImage"
  save :: "QImage \<Rightarrow> string option \<Rightarrow> QByteArray"
  scaledToHeight :: "QImage \<Rightarrow> int \<Rightarrow> QImage"
  scaledToWidth :: "QImage \<Rightarrow> int \<Rightarrow> QImage"
  copy :: "QImage \<Rightarrow> int \<Rightarrow> int \<Rightarrow> int \<Rightarrow> int \<Rightarrow> QImage"
  transformed :: "QImage \<Rightarrow> QSize \<Rightarrow> int \<Rightarrow> QImage"

text \<open>Division of C on \<open>int\<close>, which rounds towards zero.\<close>

definition c_div :: "int \<Rightarrow> int \<Rightarrow> int" where
  "c_div a b = sgn a * sgn b * (\<bar>a\<bar> div \<bar>b\<bar>)"

text \<open>
  \<open>ModelData::thumbnail\<close>. The two products that choose the axis to scale are taken
  without overflow.
\<close>

definition thumbnail :: "QtImage \<Rightarrow> QImage \<Rightarrow> QSize \<Rightarrow> int \<Rightarrow> QImage" where
  "thumbnail qt aImage aSize aRotate =
     (let imageSize = image_size aImage;
          cropped =
            (if width imageSize * height aSize > width aSize * height imageSize then
               (let scaled = scaledToHeight qt aImage (height aSize);
                    x = c_div (width (image_size scaled) - width aSize) 2
                in copy qt scaled x 0 (width aSize) (height aSize))
             else
               (let scaled = scaledToWidth qt aImage (width aSize);
                    y = c_div (height (image_size scaled) - height aSize) 2
                in copy qt scaled 0 y (width aSize) (height aSize)))
      in if aRotate \<noteq> 0 then transformed qt cropped aSize (- aRotate) else cropped)"

text \<open>
  What Qt documents about the size of the results. \<open>QImage::copy\<close> gives an image of
  the width and height asked for. \<open>QImage::transformed\<close> gives the smallest image that
  holds all transformed points of the original: the same size for a half turn, width
  and height exchanged for a quarter turn. Either may give a null image instead (a
  null original, an empty rectangle, no memory).
\<close>

definition qt_size_contract :: "QtImage \<Rightarrow> bool" where
  "qt_size_contract qt =
     ((\<forall>img x y w h. copy qt img x y w h = NullImage \<or> copy qt img x y w h = Image w h) \<and>
      (\<forall>sz a. transformed qt NullImage sz a = NullImage) \<and>
      (\<forall>w h sz. transformed qt (Image w h) sz (- 180) = NullImage \<or>
                 transformed qt (Image w h) sz (- 180) = Image w h) \<and>
      (\<forall>w h sz. transformed qt (Image w h) sz (- 90) = NullImage \<or>
                 transformed qt (Image w h) sz (- 90) = Image h w) \<and>
      (\<forall>w h sz. transformed qt (Image w h) sz (- 270) = NullImage \<or>
                 transformed qt (Image w h) sz (- 270) = Image h w))"

text \<open>
  An image library that meets the contract, for the examples: it works on sizes,
  rounds a scaled length to the nearest pixel, decodes any bytes to an image of 640 by
  480 pixels and encodes an image to one byte.
\<close>

definition qt_sizes :: QtImage where
  "qt_sizes =
     \<lparr>fromData = (\<lambda>bytes fmt. if bytes = [] then NullImage else Image 640 480),
      save = (\<lambda>img fmt. if isNull img then [] else [1]),
      scaledToHeight = (\<lambda>img h. case img of
           NullImage \<Rightarrow> NullImage
         | Image w0 h0 \<Rightarrow> if h \<le> 0 then NullImage
                          else Image (max 1 ((2 * w0 * h + h0) div (2 * h0))) h),
      scaledToWidth = (\<lambda>img w. case img of
           NullImage \<Rightarrow> NullImage
         | Image w0 h0 \<Rightarrow> if w \<le> 0 then NullImage
                          else Image w (max 1 ((2 * h0 * w + w0) div (2 * w0)))),
      copy = (\<lambda>img x y w h. if isNull img \<or> w \<le> 0 \<or> h \<le> 0 then NullImage else Image w h),
      transformed = (\<lambda>img sz a. case img of
           NullImage \<Rightarrow> NullImage
         | Image w h \<Rightarrow> if a mod 180 = 0 then Image w h
                        else if a mod 90 = 0 then Image h w
                        else NullImage)\<rparr>"

section \<open>The worker tasks and their collaborators\<close>

definition HEADER_ORIGINAL_PATH :: string where "HEADER_ORIGINAL_PATH = ''Original-Path''"
definition HEADER_MODIFICATION_TIME :: string where "HEADER_MODIFICATION_TIME = ''Modification-Time''"
definition HEADER_ACCESS_TIME :: string where "HEADER_ACCESS_TIME = ''Access-Time''"
definition HEADER_ORIENTATION :: string where "HEADER_ORIENTATION = ''Orientation''"
definition HEADER_TITLE :: string where "HEADER_TITLE = ''Title''"
definition HEADER_THUMB_FULL_WIDTH :: string where "HEADER_THUMB_FULL_WIDTH = ''Full-Width''"
definition HEADER_THUMB_FULL_HEIGHT :: string where "HEADER_THUMB_FULL_HEIGHT = ''Full-Height''"
definition INFO_FILE :: string where "INFO_FILE = ''.info''"

text \<open>An entry of a directory listing, and the times \<open>stat\<close> reports for a file.\<close>

record QFileInfo =
  fi_fileName :: QString
  fi_filePath :: QString
  fi_isFile :: bool

record StatTimes =
  st_mtim_sec :: int
  st_mtim_nsec :: int
  st_atim_sec :: int
  st_atim_nsec :: int

text \<open>
  What a worker task gets from outside the engine, as parameters of the model: Qt's
  images, the envelope codec on the files of the vault (\<open>foilmsg_encrypt\<close> is given the
  path of the opened output and the envelope, and says whether it was written), the
  opening of an output file, the 16 hexadecimal digits that the \<open>k\<close>-th draw of
  \<open>foil_random_generate\<close> prints as, \<open>strtol\<close> with base 0 (the value, the unread rest
  and whether \<open>errno\<close> is \<open>ERANGE\<close>), the reading of an ISO date, the listing of a
  directory, the answer of \<open>isCanceled()\<close> when it is asked for the \<open>k\<close>-th time, the
  mapping of a file into memory, the MIME type of a file (nothing when it is not
  valid), \<open>stat\<close>, and \<open>g_time_val_to_iso8601\<close> for seconds and microseconds.
\<close>

record WorkerEnv =
  qimage :: QtImage
  foilmsg_decrypt_file :: "string \<Rightarrow> FoilMsg option"
  foilmsg_verify :: "FoilMsg \<Rightarrow> bool"
  foilmsg_encrypt :: "string \<Rightarrow> FoilMsg \<Rightarrow> bool"
  foil_output_file_new_open :: "string \<Rightarrow> bool"
  random_name :: "nat \<Rightarrow> string"
  strtol0 :: "string \<Rightarrow> int \<times> string \<times> bool"
  fromISODate :: "string \<Rightarrow> QDateTime"
  entryInfoList :: "QString \<Rightarrow> QFileInfo list"
  isCanceled :: "nat \<Rightarrow> bool"
  g_mapped_file_new :: "string \<Rightarrow> QByteArray option"
  mimeTypeForFile :: "QString \<Rightarrow> string option"
  stat :: "string \<Rightarrow> StatTimes option"
  g_time_val_to_iso8601 :: "int \<Rightarrow> int \<Rightarrow> string"

text \<open>
  What a task does to the files, in order, and what a run of a task has used and done
  so far: the random names drawn, the times \<open>isCanceled()\<close> was asked, the actions.
\<close>

datatype FileAction =
    Encrypted string FoilMsg
  | Utimes string
  | Removed string
  | Unlinked string

record TaskRun =
  rnd :: nat
  polls :: nat
  actions :: "FileAction list"

text \<open>The actions that write to the vault, as opposed to those that delete a file.\<close>

fun is_write :: "FileAction \<Rightarrow> bool" where
  "is_write (Encrypted p m) = True"
| "is_write (Utimes p) = True"
| "is_write (Removed p) = False"
| "is_write (Unlinked p) = False"

text \<open>\<open>snprintf\<close> with \<open>%d\<close>.\<close>

fun show_nat :: "nat \<Rightarrow> string" where
  "show_nat n =
     (if n < 10 then [char_of (48 + n)]
      else show_nat (n div 10) @ [char_of (48 + n mod 10)])"

declare show_nat.simps [simp del]

definition show_int :: "int \<Rightarrow> string" where
  "show_int i = (if i < 0 then CHR ''-'' # show_nat (nat (- i)) else show_nat (nat i))"

subsection \<open>BaseTask\<close>

text \<open>
  \<open>decryptAndVerify\<close>: nothing for an empty file name, for a file that does not decrypt
  and for an envelope that does not verify.
\<close>

definition decryptAndVerify :: "WorkerEnv \<Rightarrow> QString \<Rightarrow> FoilMsg option" where
  "decryptAndVerify env aFileName =
     (if aFileName \<noteq> [] then
        (case foilmsg_decrypt_file env aFileName of
           Some msg \<Rightarrow> (if foilmsg_verify env msg then Some msg else None)
         | None \<Rightarrow> None)
      else None)"

definition INT_MIN :: int where "INT_MIN = - (2 ^ 31)"
definition INT_MAX :: int where "INT_MAX = 2 ^ 31 - 1"

definition headerInt :: "WorkerEnv \<Rightarrow> FoilMsg \<Rightarrow> string \<Rightarrow> int \<Rightarrow> int" where
  "headerInt env aMsg aKey aDefaultValue =
     (case foilmsg_get_value aMsg aKey of
        Some str \<Rightarrow>
          (if str \<noteq> [] then
             (case strtol0 env (g_strstrip str) of
                (l, end, erange) \<Rightarrow>
                  (if end = [] \<and> \<not> erange \<and> l \<ge> INT_MIN \<and> l \<le> INT_MAX then l
                   else aDefaultValue))
           else aDefaultValue)
      | None \<Rightarrow> aDefaultValue)"

definition headerString :: "FoilMsg \<Rightarrow> string \<Rightarrow> QString" where
  "headerString aMsg aKey = (case foilmsg_get_value aMsg aKey of Some v \<Rightarrow> v | None \<Rightarrow> [])"

definition headerTime :: "WorkerEnv \<Rightarrow> FoilMsg \<Rightarrow> string \<Rightarrow> QDateTime" where
  "headerTime env aMsg aKey =
     (case foilmsg_get_value aMsg aKey of Some v \<Rightarrow> fromISODate env v | None \<Rightarrow> 0)"

definition headerModTime :: "WorkerEnv \<Rightarrow> FoilMsg \<Rightarrow> QDateTime" where
  "headerModTime env aMsg = headerTime env aMsg HEADER_MODIFICATION_TIME"

definition toImage :: "WorkerEnv \<Rightarrow> FoilMsg option \<Rightarrow> QImage" where
  "toImage env aMsg =
     (case aMsg of
        Some msg \<Rightarrow>
          (if (case content_type msg of None \<Rightarrow> True | Some t \<Rightarrow> take 6 t = ''image/'') then
             (if data msg \<noteq> [] then fromData (qimage env) (data msg) (format (content_type msg))
              else NullImage)
           else NullImage)
      | None \<Rightarrow> NullImage)"

text \<open>
  \<open>createFoilFile\<close>: up to 100 random names are tried; the path is the last one tried.
  The result is whether an output was opened, the path, and the run.
\<close>

fun createFoilFile_loop ::
  "WorkerEnv \<Rightarrow> string \<Rightarrow> nat \<Rightarrow> string \<Rightarrow> 'a TaskRun_scheme \<Rightarrow> bool \<times> string \<times> 'a TaskRun_scheme" where
  "createFoilFile_loop env pre 0 aOutPath run = (False, aOutPath, run)"
| "createFoilFile_loop env pre (Suc n) aOutPath run =
     (let path = pre @ random_name env (rnd run);
          run1 = run\<lparr>rnd := rnd run + 1\<rparr>
      in if foil_output_file_new_open env path then (True, path, run1)
         else createFoilFile_loop env pre n path run1)"

definition createFoilFile ::
  "WorkerEnv \<Rightarrow> QString \<Rightarrow> 'a TaskRun_scheme \<Rightarrow> bool \<times> string \<times> 'a TaskRun_scheme" where
  "createFoilFile env aDestDir run =
     createFoilFile_loop env (aDestDir @ ''/'') 100 (aDestDir @ ''/'') run"

text \<open>
  \<open>writeThumb\<close>: the headers copied from the image, in the order of \<open>keys\<close>, then the
  two headers of the full size; the result is the name of the thumbnail file, empty
  when no thumbnail was written.
\<close>

definition thumb_keys :: "string list" where
  "thumb_keys =
     [HEADER_ORIGINAL_PATH, HEADER_TITLE, HEADER_MODIFICATION_TIME, HEADER_ORIENTATION,
      HEADER_ACCESS_TIME]"

definition addHeader :: "(string \<times> string) list \<Rightarrow> string \<Rightarrow> (string \<times> string) list" where
  "addHeader aHeaders aKey = (case map_of aHeaders aKey of Some v \<Rightarrow> [(aKey, v)] | None \<Rightarrow> [])"

definition writeThumb ::
  "WorkerEnv \<Rightarrow> QImage \<Rightarrow> (string \<times> string) list \<Rightarrow> string option \<Rightarrow> QImage \<Rightarrow> QString \<Rightarrow>
   'a TaskRun_scheme \<Rightarrow> QString \<times> 'a TaskRun_scheme" where
  "writeThumb env aImage aHeaders aContentType aThumb aDestDir run =
     (if \<not> isNull aThumb then
        (let hs = concat (map (addHeader aHeaders) thumb_keys) @
                  [(HEADER_THUMB_FULL_WIDTH, show_int (width (image_size aImage))),
                   (HEADER_THUMB_FULL_HEIGHT, show_int (height (image_size aImage)))];
             thumbData = save (qimage env) aThumb (format aContentType);
             msg = \<lparr>headers = hs, content_type = aContentType, data = thumbData\<rparr>
         in case createFoilFile env aDestDir run of
              (out, dest, run1) \<Rightarrow>
                (if out then
                   (if foilmsg_encrypt env dest msg
                    then (fileName dest, run1\<lparr>actions := actions run1 @ [Encrypted dest msg]\<rparr>)
                    else ([], run1))
                 else ([], run1)))
      else ([], run))"

subsection \<open>DecryptPicsTask\<close>

text \<open>
  A run of the catalog task: the flag \<open>iSaveInfo\<close> and the entries sent with the
  \<open>progress\<close> signal, in order.
\<close>

record DecryptRun = TaskRun +
  iSaveInfo :: bool
  progress :: "ModelData list"

definition decryptImage ::
  "WorkerEnv \<Rightarrow> DecryptPicsTask \<Rightarrow> QString \<Rightarrow> 'a TaskRun_scheme \<Rightarrow>
   ModelData option \<times> 'a TaskRun_scheme" where
  "decryptImage env task aImagePath run =
     (case decryptAndVerify env aImagePath of
        Some msg \<Rightarrow>
          (let origPath = headerString msg HEADER_ORIGINAL_PATH in
           if origPath \<noteq> [] then
             (let image = toImage env (Some msg) in
              if \<not> isNull image then
                (let degrees = headerInt env msg HEADER_ORIENTATION 0;
                     thumb = thumbnail (qimage env) image (dpt_iThumbSize task) degrees
                 in case writeThumb env image (headers msg) (content_type msg) thumb
                           (dpt_iDir task) run of
                      (thumbName, run1) \<Rightarrow>
                        (Some (ModelData_new origPath aImagePath (image_size image) thumbName
                                 thumb (headerString msg HEADER_TITLE) (content_type msg)
                                 degrees (headerModTime env msg)),
                         run1))
              else (None, run))
           else (None, run))
      | None \<Rightarrow> (None, run))"

definition decryptThumb ::
  "WorkerEnv \<Rightarrow> DecryptPicsTask \<Rightarrow> QString \<Rightarrow> QString \<Rightarrow> ModelData option" where
  "decryptThumb env task aImagePath aThumbPath =
     (case decryptAndVerify env aThumbPath of
        Some msg \<Rightarrow>
          (let w = headerInt env msg HEADER_THUMB_FULL_WIDTH 0;
               h = headerInt env msg HEADER_THUMB_FULL_HEIGHT 0;
               origPath = headerString msg HEADER_ORIGINAL_PATH
           in if w > 0 \<and> h > 0 \<and> origPath \<noteq> [] then
                (let thumbImage = toImage env (Some msg);
                     thumbName = fileName aThumbPath
                 in if \<not> isNull thumbImage \<and> image_size thumbImage = dpt_iThumbSize task then
                      Some (ModelData_new origPath aImagePath \<lparr>width = w, height = h\<rparr>
                              thumbName thumbImage (headerString msg HEADER_TITLE)
                              (content_type msg) (headerInt env msg HEADER_ORIENTATION 0)
                              (headerModTime env msg))
                    else None)
              else None)
      | None \<Rightarrow> None)"

definition decryptFile ::
  "WorkerEnv \<Rightarrow> DecryptPicsTask \<Rightarrow> QString \<Rightarrow> QString \<Rightarrow> DecryptRun \<Rightarrow> bool \<times> DecryptRun" where
  "decryptFile env task aImagePath aThumbPath run =
     (case (case decryptThumb env task aImagePath aThumbPath of
              Some d \<Rightarrow> (Some d, run)
            | None \<Rightarrow> decryptImage env task aImagePath run) of
        (Some d, run1) \<Rightarrow> (True, run1\<lparr>progress := progress run1 @ [d]\<rparr>)
      | (None, run1) \<Rightarrow> (False, run1))"

definition ModelInfo_load :: "WorkerEnv \<Rightarrow> QString \<Rightarrow> ModelInfo" where
  "ModelInfo_load env aDir =
     (case foilmsg_decrypt_file env (aDir @ ''/'' @ INFO_FILE) of
        Some msg \<Rightarrow> (if foilmsg_verify env msg then ModelInfo_of_msg msg else ModelInfo_empty)
      | None \<Rightarrow> ModelInfo_empty)"

text \<open>The loop of \<open>performTask\<close> that fills \<open>fileMap\<close> from the listing.\<close>

fun fill_fileMap :: "QFileInfo list \<Rightarrow> QHash \<Rightarrow> QHash" where
  "fill_fileMap [] fileMap = fileMap"
| "fill_fileMap (info # rest) fileMap =
     fill_fileMap rest
       (if fi_isFile info \<and> fi_fileName info \<noteq> INFO_FILE
        then qhash_insert (fi_fileName info) (fi_filePath info) fileMap
        else fileMap)"

text \<open>
  The first loop: the files in the known order. Every turn of the loop asks
  \<open>isCanceled()\<close> first.
\<close>

fun ordered_pass ::
  "WorkerEnv \<Rightarrow> DecryptPicsTask \<Rightarrow> ModelInfo \<Rightarrow> QString list \<Rightarrow> QHash \<Rightarrow> DecryptRun \<Rightarrow>
   QHash \<times> DecryptRun" where
  "ordered_pass env task info [] fileMap run = (fileMap, run)"
| "ordered_pass env task info (img # rest) fileMap run =
     (let canceled = isCanceled env (polls run);
          run0 = run\<lparr>polls := polls run + 1\<rparr>
      in if canceled then (fileMap, run0)
         else
           (let thumb = qhash_value (iThumbMap info) img;
                found = qhash_contains fileMap img;
                imagePath = (if found then qhash_value fileMap img else []);
                fileMap1 = (if found then qhash_take img fileMap else fileMap);
                run1 = (if found then run0 else run0\<lparr>iSaveInfo := True\<rparr>);
                foundThumb = (thumb \<noteq> [] \<and> qhash_contains fileMap1 thumb);
                thumbPath = (if foundThumb then qhash_value fileMap1 thumb else []);
                fileMap2 = (if foundThumb then qhash_take thumb fileMap1 else fileMap1);
                run2 = (if thumb \<noteq> [] \<and> \<not> foundThumb then run1\<lparr>iSaveInfo := True\<rparr> else run1)
            in case decryptFile env task imagePath thumbPath run2 of
                 (ok, run3) \<Rightarrow>
                   ordered_pass env task info rest fileMap2
                     (if \<not> ok then run3\<lparr>iSaveInfo := True\<rparr> else run3)))"

text \<open>The second loop: the remaining files, each with an empty thumbnail path.\<close>

fun remaining_pass ::
  "WorkerEnv \<Rightarrow> DecryptPicsTask \<Rightarrow> QString list \<Rightarrow> DecryptRun \<Rightarrow> DecryptRun" where
  "remaining_pass env task [] run = run"
| "remaining_pass env task (path # rest) run =
     (let canceled = isCanceled env (polls run);
          run0 = run\<lparr>polls := polls run + 1\<rparr>
      in if canceled then run0
         else
           (case decryptFile env task path [] run0 of
              (ok, run1) \<Rightarrow>
                remaining_pass env task rest
                  (if ok then run1\<lparr>iSaveInfo := True\<rparr> else run1)))"

definition DecryptRun_start :: DecryptRun where
  "DecryptRun_start = \<lparr>rnd = 0, polls = 0, actions = [], iSaveInfo = False, progress = []\<rparr>"

definition DecryptPicsTask_performTask :: "WorkerEnv \<Rightarrow> DecryptPicsTask \<Rightarrow> DecryptRun" where
  "DecryptPicsTask_performTask env task =
     (let canceled = isCanceled env 0;
          run0 = DecryptRun_start\<lparr>polls := 1\<rparr>
      in if \<not> canceled then
           (let list = entryInfoList env (dpt_iDir task);
                info = ModelInfo_load env (dpt_iDir task);
                fileMap = fill_fileMap list []
            in case ordered_pass env task info (iOrder info) fileMap run0 of
                 (fileMap1, run1) \<Rightarrow>
                   (if fileMap1 \<noteq> []
                    then remaining_pass env task (qhash_values fileMap1) run1
                    else run1))
         else run0)"

text \<open>
  One turn of the second loop in terms of \<open>decryptImage\<close> alone, for the statement of
  what the loop does.
\<close>

definition decryptImage_turn :: "WorkerEnv \<Rightarrow> DecryptPicsTask \<Rightarrow> DecryptRun \<Rightarrow> QString \<Rightarrow> DecryptRun" where
  "decryptImage_turn env task run path =
     (case decryptImage env task path (run\<lparr>polls := polls run + 1\<rparr>) of
        (Some d, run1) \<Rightarrow> run1\<lparr>progress := progress run1 @ [d], iSaveInfo := True\<rparr>
      | (None, run1) \<Rightarrow> run1)"

subsection \<open>EncryptTask\<close>

record EncryptTask =
  enc_iSourceFile :: QString
  enc_iDestDir :: QString
  enc_iOrientation :: int
  enc_iThumbSize :: QSize

text \<open>A run of the import task: the entry \<open>iData\<close> it leaves, if any.\<close>

record EncryptRun = TaskRun +
  enc_iData :: "ModelData option"

text \<open>
  The part of \<open>performTask\<close> under \<open>if (out)\<close>: the image is decoded, the envelope of the
  image is written to \<open>dest\<close>, and then the thumbnail. \<open>g_time_val_to_iso8601\<close> gives a
  string for the times of an existing file, so \<open>atime && mtime\<close> holds exactly when
  \<open>stat\<close> succeeded.
\<close>

definition image_headers :: "WorkerEnv \<Rightarrow> EncryptTask \<Rightarrow> (string \<times> string) list" where
  "image_headers env task =
     [(HEADER_ORIGINAL_PATH, c_str (enc_iSourceFile task)),
      (HEADER_TITLE, c_str (defaultTitle (enc_iSourceFile task))),
      (HEADER_ORIENTATION, show_int (enc_iOrientation task))] @
     (case stat env (enc_iSourceFile task) of
        Some t \<Rightarrow>
          [(HEADER_MODIFICATION_TIME,
            g_time_val_to_iso8601 env (st_mtim_sec t) (st_mtim_nsec t div 1000)),
           (HEADER_ACCESS_TIME,
            g_time_val_to_iso8601 env (st_atim_sec t) (st_atim_nsec t div 1000))]
      | None \<Rightarrow> [])"

definition image_envelope :: "WorkerEnv \<Rightarrow> EncryptTask \<Rightarrow> QByteArray \<Rightarrow> FoilMsg" where
  "image_envelope env task bytes =
     \<lparr>headers = image_headers env task,
      content_type = mimeTypeForFile env (enc_iSourceFile task),
      data = bytes\<rparr>"

definition encrypt_to :: "WorkerEnv \<Rightarrow> EncryptTask \<Rightarrow> QByteArray \<Rightarrow> string \<Rightarrow> EncryptRun \<Rightarrow> EncryptRun" where
  "encrypt_to env task bytes dest run =
     (let fname = enc_iSourceFile task;
          contentType = mimeTypeForFile env fname;
          image = fromData (qimage env) bytes (format contentType)
      in if \<not> isNull image then
           (let title = defaultTitle fname;
                st = stat env fname;
                time = (case st of
                          Some t \<Rightarrow> st_mtim_sec t * 1000 + st_mtim_nsec t div 1000000
                        | None \<Rightarrow> 0);
                msg = image_envelope env task bytes
            in if foilmsg_encrypt env dest msg then
                 (let run1 = run\<lparr>actions := actions run @ [Encrypted dest msg]\<rparr>;
                      run2 = (if st \<noteq> None then run1\<lparr>actions := actions run1 @ [Utimes dest]\<rparr>
                              else run1);
                      thumb = thumbnail (qimage env) image (enc_iThumbSize task) (enc_iOrientation task)
                  in case writeThumb env image (image_headers env task) contentType thumb
                            (enc_iDestDir task) run2 of
                       (thumbName, run3) \<Rightarrow>
                         run3\<lparr>enc_iData :=
                                Some (ModelData_new fname dest (image_size image) thumbName thumb
                                        title contentType (enc_iOrientation task) time)\<rparr>)
               else run)
         else run)"

definition EncryptRun_start :: EncryptRun where
  "EncryptRun_start = \<lparr>rnd = 0, polls = 0, actions = [], enc_iData = None\<rparr>"

definition EncryptTask_performTask :: "WorkerEnv \<Rightarrow> EncryptTask \<Rightarrow> EncryptRun" where
  "EncryptTask_performTask env task =
     (case g_mapped_file_new env (enc_iSourceFile task) of
        Some bytes \<Rightarrow>
          (case createFoilFile env (enc_iDestDir task) EncryptRun_start of
             (out, dest, run1) \<Rightarrow>
               (let run2 = (if out then encrypt_to env task bytes dest run1 else run1)
                in if enc_iData run2 \<noteq> None
                   then run2\<lparr>actions := actions run2 @ [Removed (enc_iSourceFile task)]\<rparr>
                   else run2\<lparr>actions := actions run2 @ [Unlinked dest]\<rparr>))
      | None \<Rightarrow> EncryptRun_start)"

section \<open>Values used in the examples\<close>

text \<open>
  An entry of the catalog that holds the given bytes, and an engine as its constructor
  leaves it, with a locked key file, a budget of \<open>aMaxBytes\<close> and the given catalog.
\<close>

definition example_entry :: "QString \<Rightarrow> QByteArray \<Rightarrow> ModelData" where
  "example_entry aPath aBytes =
     (ModelData_new (''/home/user/'' @ aPath @ ''.jpg'') (''/vault/'' @ aPath)
        \<lparr>width = 640, height = 480\<rparr> [] NullImage [] (Some ''image/jpeg'') 0 0)
     \<lparr>iBytes := aBytes\<rparr>"

definition locked_key_file :: KeyFile where
  "locked_key_file p =
     (case p of
        None \<Rightarrow> Failed FOIL_ERROR_KEY_ENCRYPTED
      | Some pw \<Rightarrow> (if pw = ''secret'' then Key (FoilPrivateKey 1)
                    else Failed FOIL_ERROR_other_code))"

definition example_engine :: "nat \<Rightarrow> ModelData list \<Rightarrow> Private" where
  "example_engine aMaxBytes aData =
     (Private_new aMaxBytes locked_key_file ''/home/user'')\<lparr>iData := aData\<rparr>"

text \<open>
  An engine with a budget of ten bytes whose first entry holds six bytes, and a finished
  request that brings six bytes for the third entry.
\<close>

definition example_cache_engine :: Private where
  "example_cache_engine =
     (example_engine 10
        [example_entry ''A'' [1, 2, 3, 4, 5, 6], example_entry ''B'' [],
         example_entry ''C'' []])\<lparr>iImageRequestTasks := [7]\<rparr>"

definition example_request_done :: ImageRequestTask where
  "example_request_done =
     \<lparr>irt_ptr = 7, irt_iPath = ''/vault/C'', irt_iBytes = [1, 2, 3, 4, 5, 6],
      irt_iContentType = ''image/jpeg''\<rparr>"

text \<open>
  A vault for the examples. The directory holds one file that is no envelope, and no
  order file. Every output opens, every draw of a random name is new, and every
  envelope is written, except, in the second environment, any but the first.
\<close>

definition example_env :: WorkerEnv where
  "example_env =
     \<lparr>qimage = qt_sizes,
      foilmsg_decrypt_file = (\<lambda>path. None),
      foilmsg_verify = (\<lambda>msg. True),
      foilmsg_encrypt = (\<lambda>path msg. True),
      foil_output_file_new_open = (\<lambda>path. True),
      random_name = (\<lambda>k. ''00000000000000'' @ show_nat (10 + k)),
      strtol0 = (\<lambda>s. (0, s, False)),
      fromISODate = (\<lambda>s. 0),
      entryInfoList = (\<lambda>dir. [\<lparr>fi_fileName = ''JUNK'', fi_filePath = dir @ ''/JUNK'',
                                  fi_isFile = True\<rparr>]),
      isCanceled = (\<lambda>k. False),
      g_mapped_file_new = (\<lambda>path. if path = ''/home/user/a.jpg'' then Some [1, 2, 3] else None),
      mimeTypeForFile = (\<lambda>path. Some ''image/jpeg''),
      stat = (\<lambda>path. Some \<lparr>st_mtim_sec = 1500000000, st_mtim_nsec = 0,
                              st_atim_sec = 1500000001, st_atim_nsec = 0\<rparr>),
      g_time_val_to_iso8601 = (\<lambda>sec usec. ''2017-07-14T02:40:00Z'')\<rparr>"

definition example_env_thumb_fails :: WorkerEnv where
  "example_env_thumb_fails =
     example_env\<lparr>foilmsg_encrypt := (\<lambda>path msg. path = ''/vault/0000000000000010'')\<rparr>"

definition example_catalog_task :: DecryptPicsTask where
  "example_catalog_task =
     \<lparr>dpt_iDir = ''/vault'', dpt_iPrivateKey = Some (FoilPrivateKey 1),
      dpt_iPublicKey = Some (PublicKeyOf (FoilPrivateKey 1)),
      dpt_iThumbSize = \<lparr>width = 32, height = 32\<rparr>\<rparr>"

definition example_import :: EncryptTask where
  "example_import =
     \<lparr>enc_iSourceFile = ''/home/user/a.jpg'', enc_iDestDir = ''/vault'',
      enc_iOrientation = 0, enc_iThumbSize = \<lparr>width = 32, height = 32\<rparr>\<rparr>"

section \<open>Properties of the signal queue\<close>

lemma and_bit_iff: "((m::32 word) AND 2 ^ n \<noteq> 0) = bit m n"
  by (simp add: and_exp_eq_0_iff_not_bit)

lemma and_bit_iff2: "((m::32 word) AND 2 ^ n = 0) = (\<not> bit m n)"
  by (simp add: and_exp_eq_0_iff_not_bit)

lemma bit_clear: "bit ((m::32 word) AND NOT (2 ^ n)) j = (bit m j \<and> j \<noteq> n)"
  by (auto simp: bit_simps dest: bit_imp_le_length)

lemma emitLoop_zero: "emitLoop i 0 acc = Some (0, acc)"
  by (subst emitLoop.simps) simp

lemma emitLoop_step:
  "n < 6 \<Longrightarrow> m \<noteq> 0 \<Longrightarrow>
   emitLoop (int n) m acc =
     (if bit m n then emitLoop (int (Suc n)) (m AND NOT (2 ^ n)) (acc @ [emitSignal ! n])
      else emitLoop (int (Suc n)) m acc)"
  by (subst emitLoop.simps) (simp add: and_bit_iff and_bit_iff2 Let_def add.commute)

lemma no_bits_zero: "(\<forall>j. \<not> bit (m::32 word) j) \<Longrightarrow> m = 0"
  by (simp add: bit_eq_iff)

lemma emitLoop_spec:
  "(\<forall>j. bit m j \<longrightarrow> n \<le> j \<and> j < 6) \<Longrightarrow>
   emitLoop (int n) m acc = Some (0, acc @ map (\<lambda>k. emitSignal ! k) (filter (bit m) [n..<6]))"
proof (induction "6 - n" arbitrary: n m acc)
  case 0
  then have "\<forall>j. \<not> bit m j" by fastforce
  then have "m = 0" by (rule no_bits_zero)
  then show ?case using 0 by (simp add: emitLoop_zero)
next
  case (Suc d)
  then have n6: "n < 6" by simp
  have upt: "[n..<6] = n # [Suc n..<6]" using n6 by (simp add: upt_conv_Cons)
  show ?case
  proof (cases "m = 0")
    case True
    then show ?thesis by (simp add: emitLoop_zero)
  next
    case m0: False
    show ?thesis
    proof (cases "bit m n")
      case bt: True
      let ?m' = "m AND NOT (2 ^ n)"
      have pre: "\<forall>j. bit ?m' j \<longrightarrow> Suc n \<le> j \<and> j < 6"
      proof (intro allI impI)
        fix j assume "bit ?m' j"
        then have "bit m j" "j \<noteq> n" by (simp_all add: bit_clear)
        with Suc.prems have "n \<le> j" "j < 6" "j \<noteq> n" by auto
        then show "Suc n \<le> j \<and> j < 6" by simp
      qed
      have flt: "filter (bit ?m') [Suc n..<6] = filter (bit m) [Suc n..<6]"
        by (rule filter_cong) (simp_all add: bit_clear)
      have d: "d = 6 - Suc n" using Suc.hyps(2) by simp
      have "emitLoop (int n) m acc = emitLoop (int (Suc n)) ?m' (acc @ [emitSignal ! n])"
        using n6 m0 bt by (simp add: emitLoop_step)
      also have "\<dots> = Some (0, (acc @ [emitSignal ! n]) @
          map (\<lambda>k. emitSignal ! k) (filter (bit ?m') [Suc n..<6]))"
        by (rule Suc.hyps(1) [OF d pre])
      finally show ?thesis using bt by (simp add: upt flt)
    next
      case bf: False
      have pre: "\<forall>j. bit m j \<longrightarrow> Suc n \<le> j \<and> j < 6"
      proof (intro allI impI)
        fix j assume b: "bit m j"
        with bf have "j \<noteq> n" by auto
        with b Suc.prems have "n \<le> j" "j < 6" "j \<noteq> n" by auto
        then show "Suc n \<le> j \<and> j < 6" by simp
      qed
      have d: "d = 6 - Suc n" using Suc.hyps(2) by simp
      have "emitLoop (int n) m acc = emitLoop (int (Suc n)) m acc"
        using n6 m0 bf by (simp add: emitLoop_step)
      also have "\<dots> = Some (0, acc @ map (\<lambda>k. emitSignal ! k) (filter (bit m) [Suc n..<6]))"
        by (rule Suc.hyps(1) [OF d pre])
      finally show ?thesis using bf by (simp add: upt)
    qed
  qed
qed

lemma bit_two_power: "n < 6 \<Longrightarrow> bit ((2::32 word) ^ n) j = (j = n)"
  by (auto simp: bit_simps)

lemma queue_inv_empty: "iQueuedSignals q = 0 \<Longrightarrow> queue_inv q {}"
  by (simp add: queue_inv_def)

lemma queue_inv_zero: "queue_inv q S \<Longrightarrow> (iQueuedSignals q = 0) = (S = {})"
  by (auto simp: queue_inv_def bit_eq_iff)

lemma queueSignal_inv:
  assumes "queue_inv q S"
  shows "queue_inv (queueSignal s q) (S \<union> valid_index s)"
proof (cases "0 \<le> sigval s \<and> sigval s < 6")
  case False
  then have "queueSignal s q = q" by (auto simp: queueSignal_def)
  moreover have "valid_index s = {}" using False by (auto simp: valid_index_def)
  ultimately show ?thesis using assms by simp
next
  case True
  then have n6: "nat (sigval s) < 6" by linarith
  have vi: "valid_index s = {nat (sigval s)}" using True by (simp add: valid_index_def)
  show ?thesis
  proof (cases "iQueuedSignals q = 0")
    case z: True
    then have "S = {}" using assms by (simp add: queue_inv_zero)
    then show ?thesis using True z n6
      by (simp add: queue_inv_def queueSignal_def vi bit_two_power)
  next
    case nz: False
    then have "S \<noteq> {}" using assms by (simp add: queue_inv_zero)
    then show ?thesis using True nz n6 assms
      by (auto simp: queue_inv_def queueSignal_def vi bit_two_power bit_or_iff Let_def)
  qed
qed

lemma foldl_queueSignal_inv:
  "queue_inv q S \<Longrightarrow>
   queue_inv (foldl (\<lambda>q s. queueSignal s q) q sigs) (S \<union> (\<Union>s \<in> set sigs. valid_index s))"
proof (induction sigs arbitrary: q S)
  case Nil
  then show ?case by simp
next
  case (Cons s sigs)
  from Cons.IH [OF queueSignal_inv [OF Cons.prems, of s]]
  show ?case by (simp add: Un_assoc)
qed

lemma emitSignal_nth: "k < 6 \<Longrightarrow> (k \<in> valid_index s) = (emitSignal ! k = s)"
  by (cases s) (auto simp: valid_index_def emitSignal_def nth_Cons' split: if_splits)

lemma emit_inv:
  assumes "queue_inv q S"
  shows "emitQueuedSignals q =
     Some (q\<lparr>iQueuedSignals := 0\<rparr>, map (\<lambda>k. emitSignal ! k) (filter (\<lambda>k. k \<in> S) [0..<6]))"
proof (cases "S = {}")
  case True
  with assms have "iQueuedSignals q = 0" by (simp add: queue_inv_zero)
  then show ?thesis using True by (simp add: emitQueuedSignals_def)
next
  case False
  with assms have nz: "iQueuedSignals q \<noteq> 0" by (simp add: queue_inv_zero)
  from False assms have f0: "0 \<le> iFirstQueuedSignal q" by (simp add: queue_inv_def)
  define n where "n = nat (iFirstQueuedSignal q)"
  have fn: "iFirstQueuedSignal q = int n" using f0 by (simp add: n_def)
  have bits: "\<forall>j. bit (iQueuedSignals q) j \<longrightarrow> n \<le> j \<and> j < 6"
    using assms fn by (auto simp: queue_inv_def)
  have bitS: "bit (iQueuedSignals q) = (\<lambda>j. j \<in> S)"
    using assms by (auto simp: queue_inv_def)
  have below: "filter (\<lambda>k. k \<in> S) [0..<n] = []"
    using assms fn by (auto simp: queue_inv_def filter_empty_conv)
  have n6: "n \<le> 6"
  proof -
    from False obtain j where "j \<in> S" by auto
    with assms fn have "int n \<le> int j" "j < 6" by (auto simp: queue_inv_def)
    then show ?thesis by simp
  qed
  have split: "[0..<6] = [0..<n] @ [n..<6]"
    using n6 by (metis le_add_diff_inverse upt_add_eq_append zero_le)
  have "filter (\<lambda>k. k \<in> S) [0..<6] = filter (\<lambda>k. k \<in> S) [n..<6]"
    by (subst split) (simp add: below)
  then show ?thesis
    using nz emitLoop_spec [OF bits, of "[]"] by (simp add: emitQueuedSignals_def fn bitS)
qed

text \<open>
  Claim C8. Starting from an empty queue, whatever signals are queued, in whatever order
  and however often, \<open>emitQueuedSignals\<close> emits exactly the queued signals, each
  once, in the fixed order of the array \<open>emitSignal\<close> (countChanged, busyChanged,
  keyAvailableChanged, foilStateChanged, thumbnailSizeChanged,
  mayHaveEncryptedPicturesChanged), and leaves the queue empty for the next turn.
\<close>

theorem emitQueuedSignals_fixed_order:
  assumes "iQueuedSignals q = 0"
  shows "emitQueuedSignals (foldl (\<lambda>q s. queueSignal s q) q sigs) =
     Some ((foldl (\<lambda>q s. queueSignal s q) q sigs)\<lparr>iQueuedSignals := 0\<rparr>,
           filter (\<lambda>s. s \<in> set sigs) emitSignal)"
proof -
  let ?S = "\<Union>s \<in> set sigs. valid_index s"
  have inv: "queue_inv (foldl (\<lambda>q s. queueSignal s q) q sigs) ?S"
    using foldl_queueSignal_inv [OF queue_inv_empty [OF assms], of sigs] by simp
  have len: "length emitSignal = 6" by (simp add: emitSignal_def)
  have "map (\<lambda>k. emitSignal ! k) (filter (\<lambda>k. k \<in> ?S) [0..<6]) =
        map (\<lambda>k. emitSignal ! k) (filter (\<lambda>k. emitSignal ! k \<in> set sigs) [0..<6])"
    by (rule arg_cong [where f = "map _"], rule filter_cong) (auto simp: emitSignal_nth)
  also have "\<dots> = filter (\<lambda>s. s \<in> set sigs) (map (\<lambda>k. emitSignal ! k) [0..<length emitSignal])"
    by (simp add: filter_map o_def len)
  also have "\<dots> = filter (\<lambda>s. s \<in> set sigs) emitSignal"
    by (simp only: map_nth)
  finally show ?thesis using emit_inv [OF inv] by simp
qed

text \<open>
  The theorem at a concrete turn: foilStateChanged is queued twice, after it busyChanged
  and countChanged; three signals come out, countChanged first.
\<close>

theorem emitQueuedSignals_fixed_order_witness:
  "iQueuedSignals \<lparr>iQueuedSignals = 0, iFirstQueuedSignal = - 1\<rparr> = 0 \<and>
   emitQueuedSignals (foldl (\<lambda>q s. queueSignal s q) \<lparr>iQueuedSignals = 0, iFirstQueuedSignal = - 1\<rparr>
       [SignalFoilStateChanged, SignalBusyChanged, SignalFoilStateChanged, SignalCountChanged]) =
     Some (\<lparr>iQueuedSignals = 0, iFirstQueuedSignal = 0\<rparr>,
           [SignalCountChanged, SignalBusyChanged, SignalFoilStateChanged])"
  using emitQueuedSignals_fixed_order [of "\<lparr>iQueuedSignals = 0, iFirstQueuedSignal = - 1\<rparr>"
      "[SignalFoilStateChanged, SignalBusyChanged, SignalFoilStateChanged, SignalCountChanged]"]
  by (simp add: queueSignal_def emitSignal_def)

section \<open>Properties of the cache of decrypted bytes\<close>

lemma populated_Cons:
  "populated (d # ds) = (if iBytes d \<noteq> [] then Suc (populated ds) else populated ds)"
  by (simp add: populated_def)

lemma total_bytes_Cons: "total_bytes (d # ds) = length (iBytes d) + total_bytes ds"
  by (simp add: total_bytes_def)

lemma populated_Nil: "populated [] = 0" by (simp add: populated_def)
lemma total_bytes_Nil: "total_bytes [] = 0" by (simp add: total_bytes_def)

lemma populated_zero_total: "populated xs = 0 \<Longrightarrow> total_bytes xs = 0"
  by (induction xs) (auto simp: populated_Cons total_bytes_Cons total_bytes_Nil split: if_splits)

lemma tooMuch_loop_counted:
  "1 \<le> c \<Longrightarrow> tooMuch_loop mx xs c t = (1 \<le> populated xs \<and> mx < t + total_bytes xs)"
proof (induction xs arbitrary: c t)
  case Nil
  then show ?case by (simp add: populated_Nil)
next
  case (Cons d ds)
  show ?case
  proof (cases "iBytes d = []")
    case True
    then show ?thesis using Cons.IH [OF Cons.prems, of t]
      by (simp add: populated_Cons total_bytes_Cons)
  next
    case False
    have c1: "1 \<le> c + 1" using Cons.prems by simp
    show ?thesis
    proof (cases "mx < t + length (iBytes d)")
      case True
      then show ?thesis using False Cons.prems
        by (simp add: Let_def populated_Cons total_bytes_Cons)
    next
      case le: False
      have "populated ds = 0 \<Longrightarrow> \<not> mx < t + length (iBytes d) + total_bytes ds"
        using le by (simp add: populated_zero_total)
      then show ?thesis using False le Cons.IH [OF c1, of "t + length (iBytes d)"]
        by (auto simp: Let_def populated_Cons total_bytes_Cons)
    qed
  qed
qed

lemma tooMuch_loop_start:
  "tooMuch_loop mx xs 0 t = (2 \<le> populated xs \<and> mx < t + total_bytes xs)"
proof (induction xs arbitrary: t)
  case Nil
  then show ?case by (simp add: populated_Nil)
next
  case (Cons d ds)
  show ?case
  proof (cases "iBytes d = []")
    case True
    then show ?thesis using Cons.IH [of t] by (simp add: populated_Cons total_bytes_Cons)
  next
    case False
    then show ?thesis
      using tooMuch_loop_counted [of 1 mx ds "t + length (iBytes d)"]
      by (auto simp: Let_def populated_Cons total_bytes_Cons)
  qed
qed

lemma tooMuchDataDecrypted_iff: "tooMuchDataDecrypted st = (\<not> cache_ok st)"
  by (auto simp: tooMuchDataDecrypted_def cache_ok_def tooMuch_loop_start)

lemma populated_none:
  "(\<And>j. j < length xs \<Longrightarrow> iBytes (xs ! j) = []) \<Longrightarrow> populated xs = 0"
  by (auto simp: populated_def filter_empty_conv in_set_conv_nth)

lemma populated_le_one:
  "(\<And>j. j < length xs \<Longrightarrow> int j \<noteq> k \<Longrightarrow> iBytes (xs ! j) = []) \<Longrightarrow> populated xs \<le> 1"
proof (induction xs arbitrary: k)
  case Nil
  then show ?case by (simp add: populated_Nil)
next
  case (Cons x xs)
  show ?case
  proof (cases "k = 0")
    case True
    have "populated xs = 0"
    proof (rule populated_none)
      fix j assume "j < length xs"
      then show "iBytes (xs ! j) = []" using Cons.prems [of "Suc j"] True by simp
    qed
    then show ?thesis by (simp add: populated_Cons)
  next
    case False
    have x: "iBytes x = []" using Cons.prems [of 0] False by simp
    have "populated xs \<le> 1"
    proof (rule Cons.IH [of "k - 1"])
      fix j assume "j < length xs" "int j \<noteq> k - 1"
      then show "iBytes (xs ! j) = []" using Cons.prems [of "Suc j"] by simp
    qed
    then show ?thesis using x by (simp add: populated_Cons)
  qed
qed

lemma dropDecryptedData_False:
  "dropDecryptedData k st = (False, st') \<Longrightarrow> st' = st \<and> populated (iData st) \<le> 1"
proof -
  assume a: "dropDecryptedData k st = (False, st')"
  then have neg: "indexToDrop_of (iData st) k < 0" and eq: "st' = st"
    by (auto simp: dropDecryptedData_def Let_def split: if_splits)
  have "populated (iData st) \<le> 1"
    by (rule populated_le_one [where k = k]) (rule indexToDrop_of_none [OF neg])
  with eq show ?thesis by simp
qed

lemma dropDecryptedData_fields:
  "dropDecryptedData k st = (b, st') \<Longrightarrow>
   iMaxBytesToDecrypt st' = iMaxBytesToDecrypt st \<and> iQueuedSignals st' = iQueuedSignals st \<and>
   iFirstQueuedSignal st' = iFirstQueuedSignal st \<and> length (iData st') = length (iData st) \<and>
   busy st' = busy st"
  by (auto simp: dropDecryptedData_def Let_def busy_def split: if_splits)

lemma evictLoop_cache_ok: "cache_ok (evictLoop index st)"
proof (induction index st rule: evictLoop.induct)
  case (1 index st)
  show ?case
  proof (cases "tooMuchDataDecrypted st")
    case False
    then show ?thesis by (subst evictLoop.simps) (simp add: tooMuchDataDecrypted_iff)
  next
    case True
    obtain b st1 where d: "dropDecryptedData index st = (b, st1)" by (cases "dropDecryptedData index st")
    show ?thesis
    proof (cases b)
      case True
      with d \<open>tooMuchDataDecrypted st\<close> "1.IH" [of b st1]
      show ?thesis by (subst evictLoop.simps) simp
    next
      case False
      with d dropDecryptedData_False [of index st st1]
      have "st1 = st" "populated (iData st) \<le> 1" by auto
      then show ?thesis using d False \<open>tooMuchDataDecrypted st\<close>
        by (subst evictLoop.simps) (simp add: cache_ok_def)
    qed
  qed
qed

lemma evictLoop_fields:
  "iMaxBytesToDecrypt (evictLoop index st) = iMaxBytesToDecrypt st \<and>
   iQueuedSignals (evictLoop index st) = iQueuedSignals st \<and>
   iFirstQueuedSignal (evictLoop index st) = iFirstQueuedSignal st \<and>
   length (iData (evictLoop index st)) = length (iData st) \<and>
   busy (evictLoop index st) = busy st"
proof (induction index st rule: evictLoop.induct)
  case (1 index st)
  show ?case
  proof (cases "tooMuchDataDecrypted st")
    case False
    then show ?thesis by (subst (1 2 3 4 5) evictLoop.simps) simp
  next
    case True
    obtain b st1 where d: "dropDecryptedData index st = (b, st1)" by (cases "dropDecryptedData index st")
    show ?thesis
    proof (cases b)
      case bt: True
      have e: "evictLoop index st = evictLoop index st1"
        using d bt True by (subst evictLoop.simps) simp
      show ?thesis unfolding e
        using "1.IH" [of b st1] d bt True dropDecryptedData_fields [OF d] by simp
    next
      case bf: False
      have e: "evictLoop index st = st1"
        using d bf True by (subst evictLoop.simps) simp
      show ?thesis unfolding e using dropDecryptedData_fields [OF d] by simp
    qed
  qed
qed

text \<open>
  Claim C1, at the two examples of the specification. With bytes at the indices 0, 2
  and 5 of six entries and \<open>aDontTouch = 2\<close>, \<open>dropDecryptedData\<close> clears index 0,
  at circular distance 2, and keeps index 5, at circular distance 3: for \<open>i = 5\<close> the
  source takes \<open>qMin(aDontTouch - i, i + n - aDontTouch)\<close>, which is negative. With
  bytes at all of three entries and \<open>aDontTouch = 0\<close> it clears index 2, not the lower
  index 1 at the same distance.
\<close>

theorem dropDecryptedData_keeps_the_furthest:
  "indexToDrop_of
     [example_entry ''A'' [1], example_entry ''B'' [], example_entry ''C'' [1],
      example_entry ''D'' [], example_entry ''E'' [], example_entry ''F'' [1]] 2 = 0 \<and>
   spec_circular_distance 6 2 0 = 2 \<and> spec_circular_distance 6 2 5 = 3 \<and>
   map iBytes (iData (snd (dropDecryptedData 2 (example_engine 0
     [example_entry ''A'' [1], example_entry ''B'' [], example_entry ''C'' [1],
      example_entry ''D'' [], example_entry ''E'' [], example_entry ''F'' [1]])))) =
     [[], [], [1], [], [], [1]] \<and>
   indexToDrop_of
     [example_entry ''A'' [1], example_entry ''B'' [1], example_entry ''C'' [1]] 0 = 2 \<and>
   spec_circular_distance 3 0 1 = 1 \<and> spec_circular_distance 3 0 2 = 1"
  by (simp add: indexToDrop_of_def example_entry_def ModelData_new_def dropDecryptedData_def
      example_engine_def Private_new_def spec_circular_distance_def)

lemma queueSignal_fields [simp]:
  "iData (queueSignal s st) = iData st"
  "iMaxBytesToDecrypt (queueSignal s st) = iMaxBytesToDecrypt st"
  "iFoilState (queueSignal s st) = iFoilState st"
  "iMayHaveEncryptedPictures (queueSignal s st) = iMayHaveEncryptedPictures st"
  "busy (queueSignal s st) = busy st"
  by (simp_all add: queueSignal_def Let_def busy_def)

lemma queueBusyChanged_fields [simp]:
  "iData (queueBusyChanged b st) = iData st"
  "iMaxBytesToDecrypt (queueBusyChanged b st) = iMaxBytesToDecrypt st"
  "iFoilState (queueBusyChanged b st) = iFoilState st"
  "iMayHaveEncryptedPictures (queueBusyChanged b st) = iMayHaveEncryptedPictures st"
  by (simp_all add: queueBusyChanged_def)

lemma cache_ok_cong:
  "iData st' = iData st \<Longrightarrow> iMaxBytesToDecrypt st' = iMaxBytesToDecrypt st \<Longrightarrow>
   cache_ok st' = cache_ok st"
  by (simp add: cache_ok_def)

lemma queue_inv_busy: "queue_inv st S \<Longrightarrow> \<exists>S'. queue_inv (queueBusyChanged b st) S'"
  unfolding queueBusyChanged_def using queueSignal_inv by (cases "busy st \<noteq> b") auto

lemma emit_Some:
  assumes "queue_inv st S"
  shows "\<exists>sigs. emitQueuedSignals st = Some (st\<lparr>iQueuedSignals := 0\<rparr>, sigs)"
  using emit_inv [OF assms] by blast

lemma onImageRequestDone_cache_ok:
  assumes q: "iQueuedSignals st = 0" and c: "cache_ok st"
  shows "\<exists>st' sigs. onImageRequestDone task st = Some (st', sigs) \<and> cache_ok st' \<and> iQueuedSignals st' = 0"
proof -
  define st1 where "st1 = st\<lparr>iImageRequestTasks := removeAll (irt_ptr task) (iImageRequestTasks st)\<rparr>"
  define st2 where "st2 = (if irt_iBytes task \<noteq> [] then
                   (let index = findPath st1 (irt_iPath task) in
                    if index \<ge> 0 then
                      evictLoop index
                        (st1\<lparr>iData := (iData st1)[nat index :=
                                 (iData st1 ! nat index)\<lparr>iBytes := irt_iBytes task\<rparr>]\<rparr>)
                    else st1)
                 else st1)"
  have c1: "cache_ok st1" using c by (simp add: st1_def cache_ok_def)
  have q1: "iQueuedSignals st1 = 0" using q by (simp add: st1_def)
  have c2: "cache_ok st2"
    unfolding st2_def using c1 by (simp add: Let_def evictLoop_cache_ok)
  have q2: "iQueuedSignals st2 = 0"
    unfolding st2_def using q1 by (simp add: Let_def evictLoop_fields)
  from queue_inv_busy [OF queue_inv_empty [OF q2], of "busy st"]
  obtain S where S: "queue_inv (queueBusyChanged (busy st) st2) S" by blast
  from emit_Some [OF S] obtain sigs where
    e: "emitQueuedSignals (queueBusyChanged (busy st) st2) =
          Some ((queueBusyChanged (busy st) st2)\<lparr>iQueuedSignals := 0\<rparr>, sigs)" by blast
  have "onImageRequestDone task st = emitQueuedSignals (queueBusyChanged (busy st) st2)"
    by (simp add: onImageRequestDone_def st2_def st1_def Let_def)
  moreover have "cache_ok ((queueBusyChanged (busy st) st2)\<lparr>iQueuedSignals := 0\<rparr>)"
    using c2 by (simp add: cache_ok_def)
  ultimately show ?thesis using e by simp
qed


lemma queue_wf_empty: "iQueuedSignals q = 0 \<Longrightarrow> queue_wf q"
  unfolding queue_wf_def using queue_inv_empty by blast

lemma queue_wf_queueSignal [simp]: "queue_wf q \<Longrightarrow> queue_wf (queueSignal s q)"
  unfolding queue_wf_def using queueSignal_inv by blast

lemma queue_wf_same:
  "iQueuedSignals q' = iQueuedSignals q \<Longrightarrow> iFirstQueuedSignal q' = iFirstQueuedSignal q \<Longrightarrow>
   queue_wf q' = queue_wf q"
  by (simp add: queue_wf_def queue_inv_def)

lemma queue_wf_updates [simp]:
  "queue_wf (st\<lparr>iData := a1\<rparr>) = queue_wf st"
  "queue_wf (st\<lparr>iMayHaveEncryptedPictures := a2\<rparr>) = queue_wf st"
  "queue_wf (st\<lparr>iImageProvider := a3\<rparr>) = queue_wf st"
  "queue_wf (st\<lparr>iThumbnailProvider := a4\<rparr>) = queue_wf st"
  "queue_wf (st\<lparr>iFoilState := a5\<rparr>) = queue_wf st"
  "queue_wf (st\<lparr>iPrivateKey := a6\<rparr>) = queue_wf st"
  "queue_wf (st\<lparr>iPublicKey := a7\<rparr>) = queue_wf st"
  "queue_wf (st\<lparr>iSaveInfoTask := a8\<rparr>) = queue_wf st"
  "queue_wf (st\<lparr>iDecryptPicsTask := a9\<rparr>) = queue_wf st"
  "queue_wf (st\<lparr>iEncryptTasks := a10\<rparr>) = queue_wf st"
  "queue_wf (st\<lparr>iImageRequestTasks := a11\<rparr>) = queue_wf st"
  by (simp_all add: queue_wf_def queue_inv_def)

lemma queue_wf_emit:
  "queue_wf st \<Longrightarrow> \<exists>sigs. emitQueuedSignals st = Some (st\<lparr>iQueuedSignals := 0\<rparr>, sigs)"
  unfolding queue_wf_def using emit_inv by blast

lemma queue_wf_busy [simp]: "queue_wf st \<Longrightarrow> queue_wf (queueBusyChanged b st)"
  by (simp add: queueBusyChanged_def)

lemma queue_wf_setFoilState [simp]: "queue_wf st \<Longrightarrow> queue_wf (setFoilState s st)"
  by (simp add: setFoilState_def)

lemma queue_wf_setKeys [simp]: "queue_wf st \<Longrightarrow> queue_wf (setKeys k p st)"
  by (simp add: setKeys_def Let_def split: option.splits)

lemma queue_wf_clearModel [simp]: "queue_wf st \<Longrightarrow> queue_wf (clearModel st)"
  by (simp add: clearModel_def Let_def)

lemma queue_wf_saveInfo [simp]: "queue_wf st \<Longrightarrow> queue_wf (saveInfo st)"
  by (simp add: saveInfo_def Let_def)

lemma queue_wf_insertModelData [simp]: "queue_wf st \<Longrightarrow> queue_wf (insertModelData env d st)"
  by (simp add: insertModelData_def Let_def split: option.splits)

lemma queue_wf_destroyItemAt: "destroyItemAt i st = Some st' \<Longrightarrow> queue_wf st \<Longrightarrow> queue_wf st'"
  by (auto simp: destroyItemAt_def Let_def split: if_splits)

lemma queue_wf_lock [simp]: "queue_wf st \<Longrightarrow> queue_wf (lock t st)"
  by (simp add: lock_def Let_def)

lemma queue_wf_unlock: "queue_wf st \<Longrightarrow> queue_wf (snd (unlock kf pw st))"
  by (simp add: unlock_def Let_def split: KeyResult.splits GError.splits)

lemma queue_wf_decryptAt [simp]: "queue_wf st \<Longrightarrow> queue_wf (decryptAt i st)"
  by (simp add: decryptAt_def Let_def split: option.splits)

lemma queue_wf_decryptAll [simp]: "queue_wf st \<Longrightarrow> queue_wf (decryptAll st)"
  by (simp add: decryptAll_def Let_def)

lemma populated_bytes: "populated xs = length (filter (\<lambda>b. b \<noteq> []) (map iBytes xs))"
  by (simp add: populated_def filter_map o_def)

lemma total_bytes_bytes: "total_bytes xs = sum_list (map length (map iBytes xs))"
  by (simp add: total_bytes_def o_def)

lemma cache_ok_bytes:
  "map iBytes (iData st') = map iBytes (iData st) \<Longrightarrow>
   iMaxBytesToDecrypt st' = iMaxBytesToDecrypt st \<Longrightarrow> cache_ok st' = cache_ok st"
  by (simp add: cache_ok_def populated_bytes total_bytes_bytes)

lemma populated_append: "populated (xs @ ys) = populated xs + populated ys"
  by (simp add: populated_def)

lemma total_bytes_append: "total_bytes (xs @ ys) = total_bytes xs + total_bytes ys"
  by (simp add: total_bytes_def)

lemma populated_split: "populated xs = populated (take n xs) + populated (drop n xs)"
  by (metis append_take_drop_id populated_append)

lemma total_bytes_split: "total_bytes xs = total_bytes (take n xs) + total_bytes (drop n xs)"
  by (metis append_take_drop_id total_bytes_append)

lemma populated_insert:
  "iBytes d = [] \<Longrightarrow> populated (take n xs @ d # drop n xs) = populated xs"
  using populated_split [of xs n] by (simp add: populated_append populated_Cons)

lemma total_bytes_insert:
  "iBytes d = [] \<Longrightarrow> total_bytes (take n xs @ d # drop n xs) = total_bytes xs"
  using total_bytes_split [of xs n] by (simp add: total_bytes_append total_bytes_Cons)

lemma populated_drop_le: "populated (drop n xs) \<le> populated xs"
  using populated_split [of xs n] by simp

lemma total_bytes_drop_le: "total_bytes (drop n xs) \<le> total_bytes xs"
  using total_bytes_split [of xs n] by simp

lemma populated_remove: "populated (take n xs @ drop (Suc n) xs) \<le> populated xs"
proof -
  have "drop (Suc n) xs = drop 1 (drop n xs)" by simp
  then have "populated (drop (Suc n) xs) \<le> populated (drop n xs)"
    using populated_drop_le [of 1 "drop n xs"] by simp
  then show ?thesis using populated_split [of xs n] by (simp add: populated_append)
qed

lemma total_bytes_remove: "total_bytes (take n xs @ drop (Suc n) xs) \<le> total_bytes xs"
proof -
  have "drop (Suc n) xs = drop 1 (drop n xs)" by simp
  then have "total_bytes (drop (Suc n) xs) \<le> total_bytes (drop n xs)"
    using total_bytes_drop_le [of 1 "drop n xs"] by simp
  then show ?thesis using total_bytes_split [of xs n] by (simp add: total_bytes_append)
qed

lemma cache_ok_remove:
  "cache_ok st \<Longrightarrow> iMaxBytesToDecrypt st' = iMaxBytesToDecrypt st \<Longrightarrow>
   iData st' = take n (iData st) @ drop (Suc n) (iData st) \<Longrightarrow> cache_ok st'"
  using populated_remove [of n "iData st"] total_bytes_remove [of n "iData st"]
  by (auto simp: cache_ok_def)

lemma cache_ok_empty: "iData st = [] \<Longrightarrow> cache_ok st"
  by (simp add: cache_ok_def populated_Nil)

lemma cache_ok_same:
  "iData st' = iData st \<Longrightarrow> iMaxBytesToDecrypt st' = iMaxBytesToDecrypt st \<Longrightarrow>
   cache_ok st' = cache_ok st"
  by (simp add: cache_ok_def)

lemma cache_ok_queueSignal [simp]: "cache_ok (queueSignal s st) = cache_ok st"
  by (rule cache_ok_same) simp_all

lemma cache_ok_busy [simp]: "cache_ok (queueBusyChanged b st) = cache_ok st"
  by (rule cache_ok_same) simp_all

lemma setFoilState_fields [simp]:
  "iData (setFoilState s st) = iData st"
  "iMaxBytesToDecrypt (setFoilState s st) = iMaxBytesToDecrypt st"
  "iMayHaveEncryptedPictures (setFoilState s st) = iMayHaveEncryptedPictures st"
  by (simp_all add: setFoilState_def)

lemma setKeys_fields [simp]:
  "iData (setKeys k p st) = iData st"
  "iMaxBytesToDecrypt (setKeys k p st) = iMaxBytesToDecrypt st"
  "iFoilState (setKeys k p st) = iFoilState st"
  "iMayHaveEncryptedPictures (setKeys k p st) = iMayHaveEncryptedPictures st"
  by (simp_all add: setKeys_def Let_def split: option.splits)

lemma saveInfo_fields [simp]:
  "iData (saveInfo st) = iData st"
  "iMaxBytesToDecrypt (saveInfo st) = iMaxBytesToDecrypt st"
  "iFoilState (saveInfo st) = iFoilState st"
  "iMayHaveEncryptedPictures (saveInfo st) = iMayHaveEncryptedPictures st"
  by (simp_all add: saveInfo_def Let_def)

lemma clearModel_fields [simp]:
  "iData (clearModel st) = []"
  "iMaxBytesToDecrypt (clearModel st) = iMaxBytesToDecrypt st"
  "iFoilState (clearModel st) = iFoilState st"
  by (simp_all add: clearModel_def Let_def)

lemma lock_fields [simp]:
  "iData (lock t st) = []"
  "iMaxBytesToDecrypt (lock t st) = iMaxBytesToDecrypt st"
  by (simp_all add: lock_def Let_def)

lemma cache_ok_setFoilState [simp]: "cache_ok (setFoilState s st) = cache_ok st"
  by (rule cache_ok_same) (simp_all add: setFoilState_def)

lemma cache_ok_setKeys [simp]: "cache_ok (setKeys k p st) = cache_ok st"
  by (rule cache_ok_same) (simp_all add: setKeys_def Let_def split: option.splits)

lemma cache_ok_saveInfo [simp]: "cache_ok (saveInfo st) = cache_ok st"
  by (rule cache_ok_same) (simp_all add: saveInfo_def Let_def)

lemma cache_ok_clearModel [simp]: "cache_ok (clearModel st)"
  by (rule cache_ok_empty) simp

lemma cache_ok_insertModelData: "iBytes d = [] \<Longrightarrow> cache_ok st \<Longrightarrow> cache_ok (insertModelData env d st)"
  by (auto simp: insertModelData_def Let_def cache_ok_def populated_insert total_bytes_insert
      split: option.splits)

lemma cache_ok_destroyItemAt: "destroyItemAt i st = Some st' \<Longrightarrow> cache_ok st \<Longrightarrow> cache_ok st'"
  by (auto simp: destroyItemAt_def Let_def split: if_splits
      intro: cache_ok_remove [where n = "nat i" and st = st])

lemma cache_ok_lock [simp]: "cache_ok (lock t st)"
  by (rule cache_ok_empty) simp

lemma cache_ok_unlock: "cache_ok st \<Longrightarrow> cache_ok (snd (unlock kf pw st))"
  by (simp add: unlock_def Let_def split: KeyResult.splits GError.splits)

lemma cache_ok_decryptAt [simp]: "cache_ok (decryptAt i st) = cache_ok st"
  by (rule cache_ok_bytes)
     (auto simp: decryptAt_def Let_def dataAt_def map_update list_update_same_conv
        split: option.splits if_splits)

lemma attachDecryptTask_bytes: "map iBytes (attachDecryptTask i xs) = map iBytes xs"
proof (cases "i < length xs")
  case True
  then show ?thesis by (simp add: attachDecryptTask_def map_update list_update_same_conv)
next
  case False
  then show ?thesis by (simp add: attachDecryptTask_def list_update_beyond)
qed

lemma decryptAll_loop_bytes: "map iBytes (decryptAll_loop n xs) = map iBytes xs"
  by (induction n arbitrary: xs) (simp_all add: attachDecryptTask_bytes)

lemma cache_ok_decryptAll [simp]: "cache_ok (decryptAll st) = cache_ok st"
  by (rule cache_ok_bytes)
     (simp_all add: decryptAll_def Let_def attachDecryptTask_bytes decryptAll_loop_bytes)

lemma emit_keeps:
  assumes "queue_wf st" "cache_ok st"
  shows "\<exists>st' sigs. emitQueuedSignals st = Some (st', sigs) \<and> cache_ok st' \<and> iQueuedSignals st' = 0"
proof -
  from queue_wf_emit [OF assms(1)] obtain sigs where
    "emitQueuedSignals st = Some (st\<lparr>iQueuedSignals := 0\<rparr>, sigs)" by blast
  moreover have "cache_ok (st\<lparr>iQueuedSignals := 0\<rparr>)" using assms(2) by (simp add: cache_ok_def)
  ultimately show ?thesis by simp
qed

lemma destroyItemAt_in_range:
  "i < int (length (iData st)) \<Longrightarrow> \<exists>st'. destroyItemAt i st = Some st'"
  by (simp add: destroyItemAt_def Let_def)

lemma removeAt_Some:
  "\<exists>st1. removeAt i st = Some st1 \<and> (queue_wf st \<longrightarrow> queue_wf st1) \<and> (cache_ok st \<longrightarrow> cache_ok st1)"
proof (cases "dataAt st i")
  case None
  then show ?thesis by (simp add: removeAt_def)
next
  case (Some d)
  then have "i < int (length (iData st))" by (simp add: dataAt_def split: if_splits)
  from destroyItemAt_in_range [OF this] obtain st' where d: "destroyItemAt i st = Some st'" by blast
  then have "removeAt i st = Some (saveInfo st')" using Some by (simp add: removeAt_def)
  then show ?thesis
    using queue_wf_destroyItemAt [OF d] cache_ok_destroyItemAt [OF d] by simp
qed

lemma perform_keeps:
  assumes q: "iQueuedSignals st = 0" and c: "cache_ok st" and a: "arguments_ok op st"
  shows "\<exists>st' sigs. perform op st = Some (st', sigs) \<and> cache_ok st' \<and> iQueuedSignals st' = 0"
proof -
  have w: "queue_wf st" using q by (rule queue_wf_empty)
  show ?thesis
  proof (cases op)
    case (OpRemoveAt i)
    from removeAt_Some [of i st] w c obtain st1 where
      "removeAt i st = Some st1" "queue_wf st1" "cache_ok st1" by blast
    then show ?thesis using emit_keeps [of st1] OpRemoveAt by (simp add: FoilPicsModel_removeAt_def)
  next
    case (OpDecryptAt i)
    then show ?thesis using emit_keeps [of "decryptAt i st"] w c
      by (simp add: FoilPicsModel_decryptAt_def)
  next
    case OpDecryptAll
    then show ?thesis using emit_keeps [of "decryptAll st"] w c
      by (simp add: FoilPicsModel_decryptAll_def)
  next
    case (OpLock t)
    then show ?thesis using emit_keeps [of "lock t st"] w
      by (simp add: FoilPicsModel_lock_def)
  next
    case (OpUnlock kf pw)
    obtain ok st1 where u: "unlock kf pw st = (ok, st1)" by (cases "unlock kf pw st")
    then have "queue_wf st1" "cache_ok st1"
      using queue_wf_unlock [OF w, of kf pw] cache_ok_unlock [OF c, of kf pw] by simp_all
    from emit_keeps [OF this] show ?thesis using OpUnlock u
      by (auto simp: FoilPicsModel_unlock_def)
  next
    case (OpImageRequestDone task)
    then show ?thesis using onImageRequestDone_cache_ok [OF q c, of task] by simp
  next
    case (OpDecryptTaskDone aTask aLast)
    show ?thesis
    proof (cases aTask)
      case None
      then show ?thesis using OpDecryptTaskDone q c by (simp add: decryptTaskDone_def)
    next
      case (Some i)
      with a OpDecryptTaskDone have "i < int (length (iData st))" by simp
      from destroyItemAt_in_range [OF this] obtain st1 where d: "destroyItemAt i st = Some st1" by blast
      define st2 where "st2 = queueBusyChanged (busy st) (if aLast then saveInfo st1 else st1)"
      have "queue_wf st2" "cache_ok st2"
        using queue_wf_destroyItemAt [OF d w] cache_ok_destroyItemAt [OF d c] by (simp_all add: st2_def)
      from emit_keeps [OF this] show ?thesis using OpDecryptTaskDone Some d
        by (simp add: decryptTaskDone_def Let_def st2_def)
    qed
  next
    case (OpDecryptPicsProgress env aProgress)
    show ?thesis
    proof (cases aProgress)
      case None
      then show ?thesis using OpDecryptPicsProgress emit_keeps [OF w c]
        by (simp add: onDecryptPicsProgress_def)
    next
      case (Some d)
      with a OpDecryptPicsProgress have "iBytes d = []" by simp
      then have "cache_ok (insertModelData env d st)" using c by (rule cache_ok_insertModelData)
      moreover have "queue_wf (insertModelData env d st)" using w by simp
      ultimately show ?thesis using OpDecryptPicsProgress Some emit_keeps [of "insertModelData env d st"]
        by (simp add: onDecryptPicsProgress_def)
    qed
  next
    case (OpEncryptTaskDone env task)
    define st1 where "st1 = st\<lparr>iEncryptTasks := removeAll (et_ptr task) (iEncryptTasks st)\<rparr>"
    define st2 where "st2 = (case et_iData task of
                   Some d \<Rightarrow> saveInfo (insertModelData env d st1) | None \<Rightarrow> st1)"
    have w1: "queue_wf st1" using w by (simp add: st1_def)
    have c1: "cache_ok st1" using c by (simp add: st1_def cache_ok_def)
    have "queue_wf st2" using w1 by (simp add: st2_def split: option.splits)
    moreover have "cache_ok st2"
      using c1 a OpEncryptTaskDone by (auto simp: st2_def cache_ok_insertModelData split: option.splits)
    ultimately have "queue_wf (queueBusyChanged (busy st) st2)" "cache_ok (queueBusyChanged (busy st) st2)"
      by simp_all
    moreover have "perform op st = emitQueuedSignals (queueBusyChanged (busy st) st2)"
      unfolding st2_def st1_def using OpEncryptTaskDone by (simp add: onEncryptTaskDone_def Let_def)
    ultimately show ?thesis using emit_keeps [of "queueBusyChanged (busy st) st2"] by simp
  qed
qed

text \<open>
  Claim C3. The engine starts within the budget of its cache, and every operation that
  writes the catalog, started with an empty signal queue and within the budget, returns
  and leaves the engine within the budget: the bytes held are at most
  \<open>iMaxBytesToDecrypt\<close> or at most one entry holds bytes. For \<open>onImageRequestDone\<close>
  this is the work of the eviction loop.
\<close>

theorem cache_budget_invariant:
  "cache_ok (Private_new aMaxBytes keyFile aHome) \<and>
   iQueuedSignals (Private_new aMaxBytes keyFile aHome) = 0 \<and>
   (iQueuedSignals st = 0 \<longrightarrow> cache_ok st \<longrightarrow> arguments_ok op st \<longrightarrow>
      (\<exists>st' sigs. perform op st = Some (st', sigs) \<and> cache_ok st' \<and> iQueuedSignals st' = 0))"
  using perform_keeps [of st op] by (simp add: Private_new_def cache_ok_def populated_Nil)

text \<open>
  The theorem at the example: the request brings the total to twelve bytes, over the
  budget of ten, and the loop clears the first entry.
\<close>

theorem cache_budget_invariant_witness:
  "iQueuedSignals example_cache_engine = 0 \<and> cache_ok example_cache_engine \<and>
   arguments_ok (OpImageRequestDone example_request_done) example_cache_engine \<and>
   (\<exists>st' sigs. perform (OpImageRequestDone example_request_done) example_cache_engine =
        Some (st', sigs) \<and> cache_ok st' \<and> iQueuedSignals st' = 0)"
  using cache_budget_invariant [of 10 locked_key_file "''/home/user''" example_cache_engine
      "OpImageRequestDone example_request_done"]
  by (simp add: example_cache_engine_def example_engine_def Private_new_def cache_ok_def
      total_bytes_def populated_def example_entry_def ModelData_new_def)

lemma onImageRequestDone_example:
  "map_option (\<lambda>r. map iBytes (iData (fst r)))
     (onImageRequestDone example_request_done example_cache_engine) =
   Some [[], [], [1, 2, 3, 4, 5, 6]]"
  by code_simp


section \<open>Properties of the catalog operations\<close>

lemma destroyItemAt_flag:
  assumes "0 \<le> i" "i < int (length (iData st))"
  shows "\<exists>st'. destroyItemAt i st = Some st' \<and> \<not> iMayHaveEncryptedPictures st' \<and>
           iData st' = take (nat i) (iData st) @ drop (Suc (nat i)) (iData st)"
  using assms by (simp add: destroyItemAt_def Let_def)

lemma insertModelData_flag: "iMayHaveEncryptedPictures (insertModelData env d st)"
  by (simp add: insertModelData_def Let_def split: option.splits)

lemma length_remove: "n < length xs \<Longrightarrow> length (take n xs @ drop (Suc n) xs) = length xs - 1"
  by simp

text \<open>
  Claim C9. Destroying the entry at a valid index, by \<open>destroyItemAt\<close> itself, by
  \<open>removeAt\<close> or when a \<open>DecryptTask\<close> is done, leaves \<open>iMayHaveEncryptedPictures\<close>
  false, whatever it was and however many entries remain (one fewer than before); and
  after \<open>insertModelData\<close> the flag is true.
\<close>

theorem mayHaveEncryptedPictures_after_change:
  assumes "0 \<le> i" "i < int (length (iData st))" "iQueuedSignals st = 0"
  shows "(\<exists>st'. destroyItemAt i st = Some st' \<and> \<not> iMayHaveEncryptedPictures st' \<and>
            length (iData st') = length (iData st) - 1) \<and>
         (\<exists>st' sigs. FoilPicsModel_removeAt i st = Some (st', sigs) \<and>
            \<not> iMayHaveEncryptedPictures st' \<and> length (iData st') = length (iData st) - 1) \<and>
         (\<exists>st' sigs. decryptTaskDone (Some i) aLast st = Some (st', sigs) \<and>
            \<not> iMayHaveEncryptedPictures st' \<and> length (iData st') = length (iData st) - 1) \<and>
         iMayHaveEncryptedPictures (insertModelData env d st)"
proof -
  from destroyItemAt_flag [OF assms(1,2)] obtain st1 where
    d: "destroyItemAt i st = Some st1" and f: "\<not> iMayHaveEncryptedPictures st1" and
    l: "iData st1 = take (nat i) (iData st) @ drop (Suc (nat i)) (iData st)" by blast
  have len: "length (iData st1) = length (iData st) - 1"
    using assms(1,2) unfolding l by (intro length_remove) simp
  have w1: "queue_wf st1" using queue_wf_destroyItemAt [OF d queue_wf_empty [OF assms(3)]] .
  have da: "dataAt st i = Some (iData st ! nat i)" using assms by (simp add: dataAt_def)
  have r: "removeAt i st = Some (saveInfo st1)" using d da by (simp add: removeAt_def)
  from queue_wf_emit [of "saveInfo st1"] w1 obtain sigs1 where
    e1: "emitQueuedSignals (saveInfo st1) = Some ((saveInfo st1)\<lparr>iQueuedSignals := 0\<rparr>, sigs1)" by auto
  define st2 where "st2 = queueBusyChanged (busy st) (if aLast then saveInfo st1 else st1)"
  have "queue_wf st2" using w1 by (simp add: st2_def)
  from queue_wf_emit [OF this] obtain sigs2 where
    e2: "emitQueuedSignals st2 = Some (st2\<lparr>iQueuedSignals := 0\<rparr>, sigs2)" by blast
  have t: "decryptTaskDone (Some i) aLast st = emitQueuedSignals st2"
    using d by (simp add: decryptTaskDone_def Let_def st2_def)
  have p1: "\<exists>st'. destroyItemAt i st = Some st' \<and> \<not> iMayHaveEncryptedPictures st' \<and>
            length (iData st') = length (iData st) - 1"
    using d f len by simp
  have p2: "\<exists>st' sigs. FoilPicsModel_removeAt i st = Some (st', sigs) \<and>
            \<not> iMayHaveEncryptedPictures st' \<and> length (iData st') = length (iData st) - 1"
    using r e1 f len by (simp add: FoilPicsModel_removeAt_def)
  have p3: "\<exists>st' sigs. decryptTaskDone (Some i) aLast st = Some (st', sigs) \<and>
            \<not> iMayHaveEncryptedPictures st' \<and> length (iData st') = length (iData st) - 1"
    unfolding t e2 using f len by (simp add: st2_def)
  show ?thesis using p1 p2 p3 insertModelData_flag by blast
qed

text \<open>
  The theorem at a catalog of three entries: the second is removed, two remain, and the
  flag is false.
\<close>

theorem mayHaveEncryptedPictures_after_change_witness:
  "(0::int) \<le> 1 \<and>
   1 < int (length (iData (example_cache_engine\<lparr>iMayHaveEncryptedPictures := True\<rparr>))) \<and>
   iQueuedSignals (example_cache_engine\<lparr>iMayHaveEncryptedPictures := True\<rparr>) = 0 \<and>
   (\<exists>st' sigs. FoilPicsModel_removeAt 1
        (example_cache_engine\<lparr>iMayHaveEncryptedPictures := True\<rparr>) = Some (st', sigs) \<and>
      \<not> iMayHaveEncryptedPictures st' \<and> length (iData st') = 2)"
proof -
  let ?st = "example_cache_engine\<lparr>iMayHaveEncryptedPictures := True\<rparr>"
  have h: "(0::int) \<le> 1" "1 < int (length (iData ?st))" "iQueuedSignals ?st = 0"
    by (simp_all add: example_cache_engine_def example_engine_def Private_new_def)
  have l: "length (iData ?st) - 1 = 2"
    by (simp add: example_cache_engine_def example_engine_def Private_new_def)
  from mayHaveEncryptedPictures_after_change
    [OF h, of True "\<lparr>thumbnailProviderForObject = None, imageProviderForObject = None\<rparr>"
      "example_entry ''D'' []"]
  have "\<exists>st' sigs. FoilPicsModel_removeAt 1 ?st = Some (st', sigs) \<and>
      \<not> iMayHaveEncryptedPictures st' \<and> length (iData st') = length (iData ?st) - 1"
    by blast
  then show ?thesis using h unfolding l by simp
qed


text \<open>
  Claim C10. For an index below zero or not below the number of entries, \<open>dataAt\<close>
  gives nothing, \<open>get\<close> gives the empty map and \<open>data\<close> an invalid variant, and
  \<open>removeAt\<close> and \<open>decryptAt\<close> return the state they were given: no entry is read and
  the catalog is as before.
\<close>

theorem out_of_range_index_is_harmless:
  assumes "i < 0 \<or> int (length (iData st)) \<le> i" and "iQueuedSignals st = 0"
  shows "dataAt st i = None \<and>
         FoilPicsModel_get st i = Map.empty \<and>
         FoilPicsModel_data st i aRole = Invalid \<and>
         removeAt i st = Some st \<and>
         decryptAt i st = st \<and>
         FoilPicsModel_removeAt i st = Some (st, []) \<and>
         FoilPicsModel_decryptAt i st = Some (st, [])"
proof -
  have d: "dataAt st i = None" using assms(1) by (auto simp: dataAt_def)
  have e: "emitQueuedSignals st = Some (st, [])" using assms(2) by (simp add: emitQueuedSignals_def)
  show ?thesis using d e
    by (simp add: FoilPicsModel_get_def FoilPicsModel_data_def removeAt_def decryptAt_def
        FoilPicsModel_removeAt_def FoilPicsModel_decryptAt_def)
qed

text \<open>The theorem at the index 3 of a catalog of three entries.\<close>

theorem out_of_range_index_is_harmless_witness:
  "((3::int) < 0 \<or> int (length (iData example_cache_engine)) \<le> 3) \<and>
   iQueuedSignals example_cache_engine = 0 \<and>
   dataAt example_cache_engine 3 = None \<and>
   FoilPicsModel_get example_cache_engine 3 = Map.empty \<and>
   FoilPicsModel_data example_cache_engine 3 UrlRole = Invalid \<and>
   FoilPicsModel_removeAt 3 example_cache_engine = Some (example_cache_engine, []) \<and>
   FoilPicsModel_decryptAt 3 example_cache_engine = Some (example_cache_engine, [])"
  using out_of_range_index_is_harmless [of 3 example_cache_engine UrlRole]
  by (simp add: example_cache_engine_def example_engine_def Private_new_def)


section \<open>Properties of unlocking\<close>

lemma setFoilState_iFoilState: "iFoilState (setFoilState s st) = s"
  by (simp add: setFoilState_def)

text \<open>
  Claim C2, as the code has it. When the key file is encrypted and the passphrase does
  not open it, \<open>unlock\<close> returns false and sets the state \<open>FoilLocked\<close>: the state
  \<open>FoilLocked\<close> stays, and nothing else in the engine changes. When the passphrase
  opens the key file, \<open>unlock\<close> returns true and the state is \<open>FoilDecrypting\<close>, from
  any state, so from \<open>FoilLocked\<close> and \<open>FoilLockedTimedOut\<close>.
\<close>

theorem unlock_result:
  assumes "keyFile None = Failed FOIL_ERROR_KEY_ENCRYPTED"
  shows "(\<forall>e. keyFile (Some aPassword) = Failed e \<longrightarrow>
            unlock keyFile aPassword st = (False, setFoilState FoilLocked st) \<and>
            iFoilState (snd (unlock keyFile aPassword st)) = FoilLocked \<and>
            (iFoilState st = FoilLocked \<longrightarrow> snd (unlock keyFile aPassword st) = st)) \<and>
         (\<forall>k. keyFile (Some aPassword) = Key k \<longrightarrow>
            fst (unlock keyFile aPassword st) = True \<and>
            iFoilState (snd (unlock keyFile aPassword st)) = FoilDecrypting)"
  using assms by (simp add: unlock_def Let_def setFoilState_iFoilState) (simp add: setFoilState_def)

text \<open>
  The theorem at a locked engine: a wrong passphrase leaves it as it is, and the right
  one starts the decryption of the catalog, also after a lock by timeout.
\<close>

theorem unlock_result_witness:
  "locked_key_file None = Failed FOIL_ERROR_KEY_ENCRYPTED \<and>
   locked_key_file (Some ''wrong'') = Failed FOIL_ERROR_other_code \<and>
   iFoilState (example_engine 0 []) = FoilLocked \<and>
   unlock locked_key_file ''wrong'' (example_engine 0 []) = (False, example_engine 0 []) \<and>
   locked_key_file (Some ''secret'') = Key (FoilPrivateKey 1) \<and>
   fst (unlock locked_key_file ''secret''
          ((example_engine 0 [])\<lparr>iFoilState := FoilLockedTimedOut\<rparr>)) = True \<and>
   iFoilState (snd (unlock locked_key_file ''secret''
          ((example_engine 0 [])\<lparr>iFoilState := FoilLockedTimedOut\<rparr>))) = FoilDecrypting"
proof -
  have h: "locked_key_file None = Failed FOIL_ERROR_KEY_ENCRYPTED"
    by (simp add: locked_key_file_def)
  have w: "locked_key_file (Some ''wrong'') = Failed FOIL_ERROR_other_code"
    by (simp add: locked_key_file_def)
  have r: "locked_key_file (Some ''secret'') = Key (FoilPrivateKey 1)"
    by (simp add: locked_key_file_def)
  have l: "iFoilState (example_engine 0 []) = FoilLocked"
    by (simp add: example_engine_def Private_new_def locked_key_file_def)
  from unlock_result [of locked_key_file "''wrong''" "example_engine 0 []", OF h] w l
  have 1: "unlock locked_key_file ''wrong'' (example_engine 0 []) = (False, example_engine 0 [])"
    by (metis prod.collapse fst_conv)
  from unlock_result [of locked_key_file "''secret''"
      "(example_engine 0 [])\<lparr>iFoilState := FoilLockedTimedOut\<rparr>", OF h] r
  have 2: "fst (unlock locked_key_file ''secret''
          ((example_engine 0 [])\<lparr>iFoilState := FoilLockedTimedOut\<rparr>)) = True \<and>
      iFoilState (snd (unlock locked_key_file ''secret''
          ((example_engine 0 [])\<lparr>iFoilState := FoilLockedTimedOut\<rparr>))) = FoilDecrypting"
    by blast
  show ?thesis using h w r l 1 2 by simp
qed

text \<open>
  The claim as written fails after a lock by timeout: a wrong passphrase turns the state
  \<open>FoilLockedTimedOut\<close> into \<open>FoilLocked\<close>.
\<close>

theorem unlock_wrong_passphrase_changes_state:
  "locked_key_file None = Failed FOIL_ERROR_KEY_ENCRYPTED \<and>
   locked_key_file (Some ''wrong'') = Failed FOIL_ERROR_other_code \<and>
   iFoilState ((example_engine 0 [])\<lparr>iFoilState := FoilLockedTimedOut\<rparr>) = FoilLockedTimedOut \<and>
   fst (unlock locked_key_file ''wrong''
          ((example_engine 0 [])\<lparr>iFoilState := FoilLockedTimedOut\<rparr>)) = False \<and>
   iFoilState (snd (unlock locked_key_file ''wrong''
          ((example_engine 0 [])\<lparr>iFoilState := FoilLockedTimedOut\<rparr>))) = FoilLocked \<and>
   iFoilState (snd (unlock locked_key_file ''wrong''
          ((example_engine 0 [])\<lparr>iFoilState := FoilLockedTimedOut\<rparr>))) \<noteq>
     iFoilState ((example_engine 0 [])\<lparr>iFoilState := FoilLockedTimedOut\<rparr>)"
  by (simp add: unlock_def locked_key_file_def setFoilState_def)


section \<open>Properties of the order file\<close>

lemma join_tokens_Cons: "ts \<noteq> [] \<Longrightarrow> join_tokens (t # ts) = t @ CHR '','' # join_tokens ts"
  by (cases ts) simp_all

lemma join_tokens_nonempty: "ts \<noteq> [] \<Longrightarrow> [] \<notin> set ts \<Longrightarrow> join_tokens ts \<noteq> []"
  by (cases ts rule: join_tokens.cases) auto

lemma join_tokens_snoc:
  "ts \<noteq> [] \<Longrightarrow> join_tokens (ts @ [t]) = join_tokens ts @ CHR '','' # t"
proof (induction ts rule: join_tokens.induct)
  case 1 then show ?case by simp
next
  case (2 t) then show ?case by simp
next
  case (3 t v va)
  then show ?case by simp
qed

lemma save_loop_join:
  "[] \<notin> set ns \<Longrightarrow>
   save_loop m ns buf =
     (if ns = [] then buf
      else if buf = [] then join_tokens (map (order_token m) ns)
      else buf @ CHR '','' # join_tokens (map (order_token m) ns))"
proof (induction ns arbitrary: buf)
  case Nil
  then show ?case by simp
next
  case (Cons n ns)
  then have n: "n \<noteq> []" and ns: "[] \<notin> set ns" by auto
  have tok: "order_token m n \<noteq> []" using n by (simp add: order_token_def)
  define buf3 where "buf3 = (if buf \<noteq> [] then buf @ [CHR '',''] else buf) @ order_token m n"
  have b3: "buf3 \<noteq> []" using tok by (simp add: buf3_def)
  have "save_loop m (n # ns) buf = save_loop m ns buf3"
    by (simp add: Let_def buf3_def order_token_def INFO_ORDER_DELIMITER_def
        INFO_ORDER_THUMB_DELIMITER_def)
  also have "\<dots> = (if ns = [] then buf3 else buf3 @ CHR '','' # join_tokens (map (order_token m) ns))"
    using Cons.IH [OF ns, of buf3] b3 by simp
  finally show ?case
    by (cases ns) (simp_all add: buf3_def)
qed

lemma strsplit_nonempty: "strsplit d s \<noteq> []"
  by (induction s) auto

lemma strsplit_no_delim: "d \<notin> set t \<Longrightarrow> strsplit d t = [t]"
  by (induction t) auto

lemma strsplit_append:
  "d \<notin> set t \<Longrightarrow> strsplit d (t @ d # rest) = t # strsplit d rest"
  by (induction t) auto

lemma strsplit_join:
  "ts \<noteq> [] \<Longrightarrow> (\<forall>t \<in> set ts. CHR '','' \<notin> set t) \<Longrightarrow> strsplit CHR '','' (join_tokens ts) = ts"
proof (induction ts rule: join_tokens.induct)
  case 1 then show ?case by simp
next
  case (2 t) then show ?case by (simp add: strsplit_no_delim)
next
  case (3 t v va)
  then show ?case by (simp add: strsplit_append)
qed

lemma g_strstrip_id:
  "s \<noteq> [] \<Longrightarrow> \<not> g_ascii_isspace (hd s) \<Longrightarrow> \<not> g_ascii_isspace (last s) \<Longrightarrow> g_strstrip s = s"
proof -
  assume a: "s \<noteq> []" "\<not> g_ascii_isspace (hd s)" "\<not> g_ascii_isspace (last s)"
  have 1: "dropWhile g_ascii_isspace s = s" using a(1,2) by (cases s) simp_all
  have 2: "dropWhile g_ascii_isspace (rev s) = rev s"
    using a(1,3) by (cases s rule: rev_cases) simp_all
  show ?thesis by (simp add: g_strstrip_def 1 2)
qed

lemma takeWhile_upto: "c \<notin> set n \<Longrightarrow> takeWhile (\<lambda>x. x \<noteq> c) (n @ c # v) = n"
  by (induction n) auto

lemma dropWhile_upto: "c \<notin> set n \<Longrightarrow> dropWhile (\<lambda>x. x \<noteq> c) (n @ c # v) = c # v"
  by (induction n) auto

lemma fromLatin1_ascii: "ascii s \<Longrightarrow> fromLatin1 s = s"
  by (induction s) (simp_all add: ascii_def fromLatin1_def)

lemma qhash_value_insert:
  "qhash_value (qhash_insert k v h) k' = (if k' = k then v else qhash_value h k')"
  by (induction h) (auto simp: qhash_value_def)

lemma order_token_strip:
  assumes "legal_name n" "qhash_value m n = [] \<or> legal_name (qhash_value m n)"
  shows "g_strstrip (order_token m n) = order_token m n"
proof (rule g_strstrip_id)
  show "order_token m n \<noteq> []" using assms(1) by (simp add: order_token_def legal_name_def)
  show "\<not> g_ascii_isspace (hd (order_token m n))"
    using assms(1) by (simp add: order_token_def legal_name_def is_space_def)
  show "\<not> g_ascii_isspace (last (order_token m n))"
    using assms by (auto simp: order_token_def legal_name_def is_space_def)
qed

lemma parse_order_tokens:
  assumes "list_all legal_name ns"
    and "list_all (\<lambda>n. qhash_value m n = [] \<or>
            (legal_name (qhash_value m n) \<and> ascii n \<and> ascii (qhash_value m n))) ns"
  shows "iOrder (parse_order (map (order_token m) ns) info) = iOrder info @ ns \<and>
         (\<forall>k. qhash_value (iThumbMap (parse_order (map (order_token m) ns) info)) k =
              (if k \<in> set ns \<and> qhash_value m k \<noteq> [] then qhash_value m k
               else qhash_value (iThumbMap info) k))"
  using assms
proof (induction ns arbitrary: info)
  case Nil
  then show ?case by simp
next
  case (Cons n ns)
  then have ln: "legal_name n" and lns: "list_all legal_name ns"
    and tn: "qhash_value m n = [] \<or> (legal_name (qhash_value m n) \<and> ascii n \<and> ascii (qhash_value m n))"
    and tns: "list_all (\<lambda>n. qhash_value m n = [] \<or>
            (legal_name (qhash_value m n) \<and> ascii n \<and> ascii (qhash_value m n))) ns"
    by simp_all
  have strip: "g_strstrip (order_token m n) = order_token m n"
    using ln tn by (intro order_token_strip) auto
  have ne: "order_token m n \<noteq> []" using ln by (simp add: order_token_def legal_name_def)
  have colon: "CHR '':'' \<notin> set n" using ln by (simp add: legal_name_def)
  show ?case
  proof (cases "qhash_value m n = []")
    case True
    then have tok: "order_token m n = n" by (simp add: order_token_def)
    have step: "parse_order (map (order_token m) (n # ns)) info =
        parse_order (map (order_token m) ns) (info\<lparr>iOrder := iOrder info @ [n]\<rparr>)"
      using strip ne colon tok by (simp add: Let_def INFO_ORDER_THUMB_DELIMITER_def)
    show ?thesis unfolding step
      using Cons.IH [OF lns tns, of "info\<lparr>iOrder := iOrder info @ [n]\<rparr>"] True by auto
  next
    case False
    with tn have an: "ascii n" and at: "ascii (qhash_value m n)" by auto
    have tok: "order_token m n = n @ CHR '':'' # qhash_value m n" using False by (simp add: order_token_def)
    have tw: "takeWhile (\<lambda>c. c \<noteq> CHR '':'') (n @ CHR '':'' # qhash_value m n) = n"
      using colon by (rule takeWhile_upto)
    have dw: "dropWhile (\<lambda>c. c \<noteq> CHR '':'') (n @ CHR '':'' # qhash_value m n) = CHR '':'' # qhash_value m n"
      using colon by (rule dropWhile_upto)
    have step: "parse_order (map (order_token m) (n # ns)) info =
        parse_order (map (order_token m) ns)
          (info\<lparr>iOrder := iOrder info @ [n],
                 iThumbMap := qhash_insert n (qhash_value m n) (iThumbMap info)\<rparr>)"
      using strip ne by (simp add: Let_def INFO_ORDER_THUMB_DELIMITER_def tok tw dw
          fromLatin1_ascii [OF an] fromLatin1_ascii [OF at])
    show ?thesis unfolding step
      using Cons.IH [OF lns tns, of "info\<lparr>iOrder := iOrder info @ [n],
                 iThumbMap := qhash_insert n (qhash_value m n) (iThumbMap info)\<rparr>"] False
      by (auto simp: qhash_value_insert)
  qed
qed

lemma order_token_no_comma:
  "legal_name n \<Longrightarrow> qhash_value m n = [] \<or> legal_name (qhash_value m n) \<Longrightarrow>
   CHR '','' \<notin> set (order_token m n)"
  by (auto simp: order_token_def legal_name_def)

lemma order_token_no_nul:
  "legal_name n \<Longrightarrow> qhash_value m n = [] \<or> legal_name (qhash_value m n) \<Longrightarrow>
   CHR 0x00 \<notin> set (order_token m n)"
  by (auto simp: order_token_def legal_name_def)

lemma join_tokens_set:
  "c \<in> set (join_tokens ts) \<Longrightarrow> c = CHR '','' \<or> (\<exists>t \<in> set ts. c \<in> set t)"
  by (induction ts rule: join_tokens.induct) auto

lemma c_str_id: "CHR 0x00 \<notin> set s \<Longrightarrow> c_str s = s"
  by (auto simp: c_str_def takeWhile_eq_all_conv)

lemma qhash_value_empty_outside:
  "list_all (\<lambda>kv. snd kv = [] \<or> fst kv \<in> set ns) h \<Longrightarrow> k \<notin> set ns \<Longrightarrow> qhash_value h k = []"
  by (induction h) (auto simp: qhash_value_def)

text \<open>
  Claim C6, as the code has it. For an order list whose image and thumbnail names are
  not empty, hold no comma, colon or NUL, have no white space at either end, and are
  ASCII where an image has a thumbnail, reading the envelope that \<open>save\<close> writes
  gives the same list of image names and the same thumbnail for every image.
\<close>

theorem order_file_round_trip:
  assumes "legal_order info"
  shows "iOrder (ModelInfo_of_msg (ModelInfo_save info)) = iOrder info \<and>
         (\<forall>img. qhash_value (iThumbMap (ModelInfo_of_msg (ModelInfo_save info))) img =
                qhash_value (iThumbMap info) img)"
proof -
  let ?m = "iThumbMap info" and ?ns = "iOrder info"
  let ?toks = "map (order_token ?m) ?ns"
  from assms have l1: "list_all legal_name ?ns"
    and l2: "list_all (\<lambda>n. qhash_value ?m n = [] \<or>
                    (legal_name (qhash_value ?m n) \<and> ascii n \<and> ascii (qhash_value ?m n))) ?ns"
    and l3: "list_all (\<lambda>kv. snd kv = [] \<or> fst kv \<in> set ?ns) ?m"
    by (simp_all add: legal_order_def)
  have tokprops: "\<forall>t \<in> set ?toks. CHR '','' \<notin> set t \<and> CHR 0x00 \<notin> set t \<and> t \<noteq> []"
  proof
    fix t assume "t \<in> set ?toks"
    then obtain n where n: "n \<in> set ?ns" "t = order_token ?m n" by auto
    from n(1) l1 l2 have a: "legal_name n" "qhash_value ?m n = [] \<or> legal_name (qhash_value ?m n)"
      by (auto simp: list_all_iff)
    then show "CHR '','' \<notin> set t \<and> CHR 0x00 \<notin> set t \<and> t \<noteq> []"
      unfolding n(2) using order_token_no_comma [OF a] order_token_no_nul [OF a]
      by (auto simp: order_token_def legal_name_def)
  qed
  have nonempty: "[] \<notin> set ?ns" using l1 by (auto simp: list_all_iff legal_name_def)
  have parsed: "ModelInfo_of_msg (ModelInfo_save info) = parse_order ?toks ModelInfo_empty"
  proof (cases "?ns = []")
    case True
    then show ?thesis
      by (simp add: ModelInfo_of_msg_def ModelInfo_save_def foilmsg_get_value_def c_str_def
          g_strsplit_def)
  next
    case False
    have buf: "save_loop ?m ?ns [] = join_tokens ?toks"
      using save_loop_join [OF nonempty, of ?m "[]"] False by simp
    have nonul: "CHR 0x00 \<notin> set (join_tokens ?toks)"
      using tokprops join_tokens_set [of "CHR 0x00" ?toks] by auto
    have ne: "join_tokens ?toks \<noteq> []"
      using False tokprops by (intro join_tokens_nonempty) auto
    have split: "strsplit CHR '','' (join_tokens ?toks) = ?toks"
      using False tokprops by (intro strsplit_join) auto
    show ?thesis
      by (simp add: ModelInfo_of_msg_def ModelInfo_save_def foilmsg_get_value_def buf
          c_str_id [OF nonul] g_strsplit_def ne split INFO_ORDER_DELIMITER_def)
  qed
  from parse_order_tokens [OF l1 l2, of ModelInfo_empty]
  have o: "iOrder (parse_order ?toks ModelInfo_empty) = ?ns"
    and v: "\<And>k. qhash_value (iThumbMap (parse_order ?toks ModelInfo_empty)) k =
              (if k \<in> set ?ns \<and> qhash_value ?m k \<noteq> [] then qhash_value ?m k else [])"
    by (simp_all add: ModelInfo_empty_def qhash_value_def)
  have "\<And>k. qhash_value (iThumbMap (parse_order ?toks ModelInfo_empty)) k = qhash_value ?m k"
    using v qhash_value_empty_outside [OF l3] by auto
  then show ?thesis using o parsed by simp
qed

text \<open>The theorem at three images, two of them with a thumbnail.\<close>

theorem order_file_round_trip_witness:
  "legal_order \<lparr>iOrder = [''A1'', ''B2'', ''C3''], iThumbMap = [(''A1'', ''T1''), (''C3'', ''T3'')]\<rparr> \<and>
   iOrder (ModelInfo_of_msg (ModelInfo_save
      \<lparr>iOrder = [''A1'', ''B2'', ''C3''], iThumbMap = [(''A1'', ''T1''), (''C3'', ''T3'')]\<rparr>)) =
     [''A1'', ''B2'', ''C3''] \<and>
   qhash_value (iThumbMap (ModelInfo_of_msg (ModelInfo_save
      \<lparr>iOrder = [''A1'', ''B2'', ''C3''], iThumbMap = [(''A1'', ''T1''), (''C3'', ''T3'')]\<rparr>))) ''C3'' = ''T3''"
proof -
  have l: "legal_order \<lparr>iOrder = [''A1'', ''B2'', ''C3''], iThumbMap = [(''A1'', ''T1''), (''C3'', ''T3'')]\<rparr>"
    by (simp add: legal_order_def legal_name_def is_space_def g_ascii_isspace_def ascii_def
        qhash_value_def)
  from order_file_round_trip [OF l] show ?thesis using l by (simp add: qhash_value_def)
qed

text \<open>
  The claim as written fails for a name that begins with a space: the name is not
  empty and holds no comma or colon, and it comes back without the space.
\<close>

theorem order_file_trims_names:
  "'' a'' \<noteq> [] \<and> CHR '','' \<notin> set '' a'' \<and> CHR '':'' \<notin> set '' a'' \<and>
   iOrder (ModelInfo_of_msg (ModelInfo_save \<lparr>iOrder = ['' a''], iThumbMap = []\<rparr>)) = [''a''] \<and>
   iOrder (ModelInfo_of_msg (ModelInfo_save \<lparr>iOrder = ['' a''], iThumbMap = []\<rparr>)) \<noteq> ['' a'']"
  by (simp add: ModelInfo_of_msg_def ModelInfo_save_def foilmsg_get_value_def c_str_def
      g_strsplit_def INFO_ORDER_DELIMITER_def INFO_ORDER_THUMB_DELIMITER_def INFO_ORDER_HEADER_def
      qhash_value_def g_strstrip_def g_ascii_isspace_def ModelInfo_empty_def)

section \<open>Properties of thumbnails\<close>

lemma qt_sizes_contract: "qt_size_contract qt_sizes"
  by (simp add: qt_size_contract_def qt_sizes_def)

lemma thumbnail_cropped:
  assumes "qt_size_contract qt"
  shows "thumbnail qt aImage aSize 0 = NullImage \<or>
         thumbnail qt aImage aSize 0 = Image (width aSize) (height aSize)"
  using assms by (auto simp: thumbnail_def Let_def qt_size_contract_def)

text \<open>
  Claim C7, as the code has it. A thumbnail that \<open>ModelData::thumbnail\<close> produces (one
  that is not null) has exactly the size asked for when the orientation is 0 or 180;
  for the orientation 90 or 270 its width is the height asked for and its height the
  width asked for, because the image is cropped to the size first and turned after.
\<close>

theorem thumbnail_size:
  assumes "qt_size_contract qt"
  shows "(aRotate = 0 \<or> aRotate = 180 \<longrightarrow>
            thumbnail qt aImage aSize aRotate = NullImage \<or>
            image_size (thumbnail qt aImage aSize aRotate) = aSize) \<and>
         (aRotate = 90 \<or> aRotate = 270 \<longrightarrow>
            thumbnail qt aImage aSize aRotate = NullImage \<or>
            image_size (thumbnail qt aImage aSize aRotate) =
              \<lparr>width = height aSize, height = width aSize\<rparr>)"
proof -
  define cropped where "cropped = thumbnail qt aImage aSize 0"
  have c: "cropped = NullImage \<or> cropped = Image (width aSize) (height aSize)"
    unfolding cropped_def using assms by (rule thumbnail_cropped)
  have r: "aRotate \<noteq> 0 \<Longrightarrow> thumbnail qt aImage aSize aRotate = transformed qt cropped aSize (- aRotate)"
    by (simp add: thumbnail_def cropped_def Let_def)
  have t0: "transformed qt NullImage aSize (- aRotate) = NullImage"
    using assms by (simp add: qt_size_contract_def)
  have t180: "transformed qt (Image (width aSize) (height aSize)) aSize (- 180) = NullImage \<or>
        transformed qt (Image (width aSize) (height aSize)) aSize (- 180) = Image (width aSize) (height aSize)"
    using assms by (simp add: qt_size_contract_def)
  have t90: "transformed qt (Image (width aSize) (height aSize)) aSize (- 90) = NullImage \<or>
        transformed qt (Image (width aSize) (height aSize)) aSize (- 90) = Image (height aSize) (width aSize)"
    using assms by (simp add: qt_size_contract_def)
  have t270: "transformed qt (Image (width aSize) (height aSize)) aSize (- 270) = NullImage \<or>
        transformed qt (Image (width aSize) (height aSize)) aSize (- 270) = Image (height aSize) (width aSize)"
    using assms by (simp add: qt_size_contract_def)
  have p0: "aRotate = 0 \<Longrightarrow> thumbnail qt aImage aSize aRotate = NullImage \<or>
            image_size (thumbnail qt aImage aSize aRotate) = aSize"
    using c by (auto simp: cropped_def)
  have p180: "aRotate = 180 \<Longrightarrow> thumbnail qt aImage aSize aRotate = NullImage \<or>
            image_size (thumbnail qt aImage aSize aRotate) = aSize"
    using c r t0 t180 by auto
  have p90: "aRotate = 90 \<Longrightarrow> thumbnail qt aImage aSize aRotate = NullImage \<or>
            image_size (thumbnail qt aImage aSize aRotate) = \<lparr>width = height aSize, height = width aSize\<rparr>"
    using c r t0 t90 by auto
  have p270: "aRotate = 270 \<Longrightarrow> thumbnail qt aImage aSize aRotate = NullImage \<or>
            image_size (thumbnail qt aImage aSize aRotate) = \<lparr>width = height aSize, height = width aSize\<rparr>"
    using c r t0 t270 by auto
  show ?thesis using p0 p180 p90 p270 by blast
qed

text \<open>
  The theorem at a source of 640 by 480 pixels and a thumbnail size of 32 by 48: the
  thumbnail is 32 by 48 for the orientation 0 and 48 by 32 for the orientation 90.
\<close>

theorem thumbnail_size_witness:
  "qt_size_contract qt_sizes \<and>
   thumbnail qt_sizes (Image 640 480) \<lparr>width = 32, height = 48\<rparr> 90 \<noteq> NullImage \<and>
   image_size (thumbnail qt_sizes (Image 640 480) \<lparr>width = 32, height = 48\<rparr> 90) =
     \<lparr>width = 48, height = 32\<rparr> \<and>
   thumbnail qt_sizes (Image 640 480) \<lparr>width = 32, height = 48\<rparr> 0 \<noteq> NullImage \<and>
   image_size (thumbnail qt_sizes (Image 640 480) \<lparr>width = 32, height = 48\<rparr> 0) =
     \<lparr>width = 32, height = 48\<rparr>"
proof -
  have c: "qt_size_contract qt_sizes" by (rule qt_sizes_contract)
  have n90: "thumbnail qt_sizes (Image 640 480) \<lparr>width = 32, height = 48\<rparr> 90 \<noteq> NullImage"
    by (simp add: thumbnail_def qt_sizes_def c_div_def)
  have n0: "thumbnail qt_sizes (Image 640 480) \<lparr>width = 32, height = 48\<rparr> 0 \<noteq> NullImage"
    by (simp add: thumbnail_def qt_sizes_def c_div_def)
  from thumbnail_size [OF c, of 90 "Image 640 480" "\<lparr>width = 32, height = 48\<rparr>"] n90
  have 1: "image_size (thumbnail qt_sizes (Image 640 480) \<lparr>width = 32, height = 48\<rparr> 90) =
     \<lparr>width = 48, height = 32\<rparr>" by simp
  from thumbnail_size [OF c, of 0 "Image 640 480" "\<lparr>width = 32, height = 48\<rparr>"] n0
  have 2: "image_size (thumbnail qt_sizes (Image 640 480) \<lparr>width = 32, height = 48\<rparr> 0) =
     \<lparr>width = 32, height = 48\<rparr>" by simp
  show ?thesis using c n90 n0 1 2 by simp
qed

section \<open>Properties of the worker tasks\<close>

lemma createFoilFile_loop_run:
  "\<exists>k. snd (snd (createFoilFile_loop env pre n path run)) = run\<lparr>rnd := k\<rparr>"
proof (induction n arbitrary: path run)
  case 0
  have "run = run\<lparr>rnd := rnd run\<rparr>" by simp
  then show ?case by (metis createFoilFile_loop.simps(1) snd_conv)
next
  case (Suc n)
  show ?case
  proof (cases "foil_output_file_new_open env (pre @ random_name env (rnd run))")
    case True
    then show ?thesis by (auto simp: Let_def)
  next
    case False
    from Suc.IH [of "pre @ random_name env (rnd run)" "run\<lparr>rnd := rnd run + 1\<rparr>"]
    obtain k where "snd (snd (createFoilFile_loop env pre n (pre @ random_name env (rnd run))
        (run\<lparr>rnd := rnd run + 1\<rparr>))) = run\<lparr>rnd := rnd run + 1\<rparr>\<lparr>rnd := k\<rparr>" by blast
    then show ?thesis using False by (auto simp: Let_def)
  qed
qed

lemma createFoilFile_run:
  "createFoilFile env dir run = (out, dest, run1) \<Longrightarrow> \<exists>k. run1 = run\<lparr>rnd := k\<rparr>"
  using createFoilFile_loop_run [of env "dir @ ''/''" 100 "dir @ ''/''" run]
  by (simp add: createFoilFile_def)

lemma writeThumb_run:
  assumes "writeThumb env aImage aHeaders aContentType aThumb aDestDir run = (name, run1)"
  shows "\<exists>k acts. run1 = run\<lparr>rnd := k, actions := actions run @ acts\<rparr> \<and> list_all is_write acts"
proof (cases "isNull aThumb")
  case True
  with assms have "run1 = run" by (simp add: writeThumb_def)
  then have "run1 = run\<lparr>rnd := rnd run, actions := actions run @ []\<rparr> \<and> list_all is_write []" by simp
  then show ?thesis by blast
next
  case False
  obtain out dest r where c: "createFoilFile env aDestDir run = (out, dest, r)"
    by (cases "createFoilFile env aDestDir run") auto
  from createFoilFile_run [OF c] obtain k where k: "r = run\<lparr>rnd := k\<rparr>" by blast
  define msg where "msg = \<lparr>headers = concat (map (addHeader aHeaders) thumb_keys) @
                  [(HEADER_THUMB_FULL_WIDTH, show_int (width (image_size aImage))),
                   (HEADER_THUMB_FULL_HEIGHT, show_int (height (image_size aImage)))],
       content_type = aContentType, data = save (qimage env) aThumb (format aContentType)\<rparr>"
  show ?thesis
  proof (cases "out \<and> foilmsg_encrypt env dest msg")
    case True
    with assms False c have "run1 = r\<lparr>actions := actions r @ [Encrypted dest msg]\<rparr>"
      by (simp add: writeThumb_def Let_def msg_def)
    then have "run1 = run\<lparr>rnd := k, actions := actions run @ [Encrypted dest msg]\<rparr> \<and>
        list_all is_write [Encrypted dest msg]" using k by simp
    then show ?thesis by blast
  next
    case F: False
    with assms False c have "run1 = r"
      by (auto simp: writeThumb_def Let_def msg_def split: if_splits)
    then have "run1 = run\<lparr>rnd := k, actions := actions run @ []\<rparr> \<and> list_all is_write []"
      using k by simp
    then show ?thesis by blast
  qed
qed

lemma decryptImage_run:
  assumes "decryptImage env task path run = (d, run1)"
  shows "\<exists>k acts. run1 = run\<lparr>rnd := k, actions := actions run @ acts\<rparr>"
proof -
  have same: "run = run\<lparr>rnd := rnd run, actions := actions run @ []\<rparr>" by simp
  show ?thesis
  proof (cases "run1 = run")
    case True
    then show ?thesis using same by metis
  next
    case False
    with assms obtain aImage aHeaders aContentType aThumb aDestDir name where
      "writeThumb env aImage aHeaders aContentType aThumb aDestDir run = (name, run1)"
      by (auto simp: decryptImage_def Let_def split: option.splits if_splits prod.splits)
    from writeThumb_run [OF this] show ?thesis by blast
  qed
qed

lemma decryptThumb_no_path: "decryptThumb env task aImagePath [] = None"
  by (simp add: decryptThumb_def decryptAndVerify_def)

lemma decryptFile_no_thumb:
  "decryptFile env task path [] run =
     (case decryptImage env task path run of
        (Some d, run1) \<Rightarrow> (True, run1\<lparr>progress := progress run1 @ [d]\<rparr>)
      | (None, run1) \<Rightarrow> (False, run1))"
  by (simp add: decryptFile_def decryptThumb_no_path)

lemma remaining_pass_fold:
  assumes "\<forall>k. \<not> isCanceled env k"
  shows "remaining_pass env task paths run = foldl (decryptImage_turn env task) run paths"
proof (induction paths arbitrary: run)
  case Nil
  then show ?case by simp
next
  case (Cons p ps)
  obtain d r where di: "decryptImage env task p (run\<lparr>polls := polls run + 1\<rparr>) = (d, r)"
    by (cases "decryptImage env task p (run\<lparr>polls := polls run + 1\<rparr>)") auto
  show ?case
  proof (cases d)
    case None
    then show ?thesis using assms di Cons.IH [of r]
      by (simp add: decryptFile_no_thumb decryptImage_turn_def Let_def)
  next
    case (Some e)
    then show ?thesis
      using assms di Cons.IH [of "r\<lparr>progress := progress r @ [e], iSaveInfo := True\<rparr>"]
      by (simp add: decryptFile_no_thumb decryptImage_turn_def Let_def)
  qed
qed

lemma decryptImage_turn_cases:
  "(iSaveInfo (decryptImage_turn env task run p) = iSaveInfo run \<and>
    progress (decryptImage_turn env task run p) = progress run) \<or>
   (iSaveInfo (decryptImage_turn env task run p) \<and>
    (\<exists>d. progress (decryptImage_turn env task run p) = progress run @ [d]))"
proof -
  obtain d r where di: "decryptImage env task p (run\<lparr>polls := polls run + 1\<rparr>) = (d, r)"
    by (cases "decryptImage env task p (run\<lparr>polls := polls run + 1\<rparr>)") auto
  from decryptImage_run [OF di] obtain k acts where
    r: "r = run\<lparr>polls := polls run + 1\<rparr>\<lparr>rnd := k, actions := actions (run\<lparr>polls := polls run + 1\<rparr>) @ acts\<rparr>"
    by blast
  show ?thesis using di r by (cases d) (simp_all add: decryptImage_turn_def)
qed

lemma fold_turns_progress:
  "length (progress run) \<le> length (progress (foldl (decryptImage_turn env task) run paths)) \<and>
   iSaveInfo (foldl (decryptImage_turn env task) run paths) =
     (iSaveInfo run \<or>
      length (progress run) < length (progress (foldl (decryptImage_turn env task) run paths)))"
proof (induction paths arbitrary: run)
  case Nil
  then show ?case by simp
next
  case (Cons p ps)
  let ?r = "decryptImage_turn env task run p"
  from Cons.IH [of ?r] decryptImage_turn_cases [of env task run p]
  show ?case by auto
qed

text \<open>
  Claim C4, as the code has it. When the task is not cancelled, \<open>performTask\<close> is the
  ordered pass followed by one turn of \<open>decryptImage\<close> for every file that remains in
  the file map (\<open>decryptThumb\<close> gives nothing for the empty thumbnail path); and after
  the second pass \<open>iSaveInfo\<close> is set exactly when it was set before or the pass
  produced an entry.
\<close>

theorem remaining_files_use_decryptImage:
  assumes "\<forall>k. \<not> isCanceled env k"
  shows "DecryptPicsTask_performTask env task =
           (case ordered_pass env task (ModelInfo_load env (dpt_iDir task))
                   (iOrder (ModelInfo_load env (dpt_iDir task)))
                   (fill_fileMap (entryInfoList env (dpt_iDir task)) [])
                   (DecryptRun_start\<lparr>polls := 1\<rparr>) of
              (fileMap1, run1) \<Rightarrow>
                foldl (decryptImage_turn env task) run1 (qhash_values fileMap1)) \<and>
         remaining_pass env task paths run = foldl (decryptImage_turn env task) run paths \<and>
         iSaveInfo (remaining_pass env task paths run) =
           (iSaveInfo run \<or>
            length (progress run) < length (progress (remaining_pass env task paths run)))"
proof -
  have 1: "remaining_pass env task paths run = foldl (decryptImage_turn env task) run paths" for paths run
    using assms by (rule remaining_pass_fold)
  have 2: "iSaveInfo (remaining_pass env task paths run) =
           (iSaveInfo run \<or>
            length (progress run) < length (progress (remaining_pass env task paths run)))"
    unfolding 1 using fold_turns_progress [of run env task paths] by simp
  have 3: "DecryptPicsTask_performTask env task =
           (case ordered_pass env task (ModelInfo_load env (dpt_iDir task))
                   (iOrder (ModelInfo_load env (dpt_iDir task)))
                   (fill_fileMap (entryInfoList env (dpt_iDir task)) [])
                   (DecryptRun_start\<lparr>polls := 1\<rparr>) of
              (fileMap1, run1) \<Rightarrow>
                foldl (decryptImage_turn env task) run1 (qhash_values fileMap1))"
    using assms by (auto simp: DecryptPicsTask_performTask_def Let_def 1 qhash_values_def
        split: prod.splits)
  show ?thesis using 1 2 3 by blast
qed

text \<open>The theorem at a vault that holds one file outside the recorded order.\<close>

theorem remaining_files_use_decryptImage_witness:
  "(\<forall>k. \<not> isCanceled example_env k) \<and>
   fill_fileMap (entryInfoList example_env ''/vault'') [] = [(''JUNK'', ''/vault/JUNK'')] \<and>
   remaining_pass example_env example_catalog_task [''/vault/JUNK''] (DecryptRun_start\<lparr>polls := 1\<rparr>) =
     foldl (decryptImage_turn example_env example_catalog_task) (DecryptRun_start\<lparr>polls := 1\<rparr>)
       [''/vault/JUNK'']"
proof -
  have h: "\<forall>k. \<not> isCanceled example_env k" by (simp add: example_env_def)
  have f: "fill_fileMap (entryInfoList example_env ''/vault'') [] = [(''JUNK'', ''/vault/JUNK'')]"
    by (simp add: example_env_def INFO_FILE_def)
  from remaining_files_use_decryptImage [OF h, of example_catalog_task "[''/vault/JUNK'']"
      "DecryptRun_start\<lparr>polls := 1\<rparr>"]
  show ?thesis using h f by blast
qed

text \<open>
  The claim as written fails when no remaining file decrypts: the vault holds one file
  that is no envelope and no order file, the file is tried in the second pass, and
  \<open>iSaveInfo\<close> stays false.
\<close>

theorem remaining_file_without_save_info:
  "(\<forall>k. \<not> isCanceled example_env k) \<and>
   ModelInfo_load example_env (dpt_iDir example_catalog_task) = ModelInfo_empty \<and>
   fill_fileMap (entryInfoList example_env (dpt_iDir example_catalog_task)) [] =
     [(''JUNK'', ''/vault/JUNK'')] \<and>
   DecryptPicsTask_performTask example_env example_catalog_task =
     \<lparr>rnd = 0, polls = 2, actions = [], iSaveInfo = False, progress = []\<rparr> \<and>
   iSaveInfo (DecryptPicsTask_performTask example_env example_catalog_task) = False"
  by (simp add: example_env_def example_catalog_task_def DecryptPicsTask_performTask_def
      ModelInfo_load_def ModelInfo_empty_def INFO_FILE_def DecryptRun_start_def qhash_values_def
      decryptFile_def decryptThumb_def decryptImage_def decryptAndVerify_def)

lemma encrypt_to_outcome:
  assumes "enc_iData run = None"
  shows "let produced = (\<not> isNull (fromData (qimage env) bytes
                              (format (mimeTypeForFile env (enc_iSourceFile task)))) \<and>
                         foilmsg_encrypt env dest (image_envelope env task bytes));
             run1 = encrypt_to env task bytes dest run
         in (enc_iData run1 \<noteq> None) = produced \<and>
            (\<not> produced \<longrightarrow> run1 = run) \<and>
            (produced \<longrightarrow>
               (\<exists>acts. actions run1 =
                    actions run @ Encrypted dest (image_envelope env task bytes) # acts \<and>
                  list_all is_write acts) \<and>
               (\<exists>d. enc_iData run1 = Some d \<and> iPath d = dest))"
proof (cases "\<not> isNull (fromData (qimage env) bytes
                              (format (mimeTypeForFile env (enc_iSourceFile task)))) \<and>
                         foilmsg_encrypt env dest (image_envelope env task bytes)")
  case False
  then have "encrypt_to env task bytes dest run = run"
    by (auto simp: encrypt_to_def Let_def)
  then show ?thesis using False assms by (simp add: Let_def)
next
  case True
  define image where "image = fromData (qimage env) bytes (format (mimeTypeForFile env (enc_iSourceFile task)))"
  define msg where "msg = image_envelope env task bytes"
  define run1 where "run1 = run\<lparr>actions := actions run @ [Encrypted dest msg]\<rparr>"
  define run2 where "run2 = (if stat env (enc_iSourceFile task) \<noteq> None
       then run1\<lparr>actions := actions run1 @ [Utimes dest]\<rparr> else run1)"
  define thumb where "thumb = thumbnail (qimage env) image (enc_iThumbSize task) (enc_iOrientation task)"
  obtain name run3 where w: "writeThumb env image (image_headers env task)
      (mimeTypeForFile env (enc_iSourceFile task)) thumb (enc_iDestDir task) run2 = (name, run3)"
    by (cases "writeThumb env image (image_headers env task)
      (mimeTypeForFile env (enc_iSourceFile task)) thumb (enc_iDestDir task) run2") auto
  from writeThumb_run [OF w] obtain k acts where
    r3: "run3 = run2\<lparr>rnd := k, actions := actions run2 @ acts\<rparr>" and wr: "list_all is_write acts"
    by blast
  define d where "d = ModelData_new (enc_iSourceFile task) dest (image_size image) name thumb
      (defaultTitle (enc_iSourceFile task)) (mimeTypeForFile env (enc_iSourceFile task))
      (enc_iOrientation task)
      (case stat env (enc_iSourceFile task) of
         Some t \<Rightarrow> st_mtim_sec t * 1000 + st_mtim_nsec t div 1000000 | None \<Rightarrow> 0)"
  have e: "encrypt_to env task bytes dest run = run3\<lparr>enc_iData := Some d\<rparr>"
    using True w
    unfolding encrypt_to_def Let_def image_def msg_def run1_def run2_def thumb_def d_def
    by (cases "stat env (enc_iSourceFile task)") simp_all
  have a2: "\<exists>acts2. actions run2 = actions run @ Encrypted dest msg # acts2 \<and> list_all is_write acts2"
  proof (cases "stat env (enc_iSourceFile task) \<noteq> None")
    case True
    then have "actions run2 = actions run @ Encrypted dest msg # [Utimes dest] \<and>
        list_all is_write [Utimes dest]" by (simp add: run2_def run1_def)
    then show ?thesis by blast
  next
    case False
    then have "actions run2 = actions run @ Encrypted dest msg # [] \<and> list_all is_write []"
      by (simp add: run2_def run1_def)
    then show ?thesis by blast
  qed
  then obtain acts2 where a2': "actions run2 = actions run @ Encrypted dest msg # acts2"
    and w2: "list_all is_write acts2" by blast
  have "actions (run3\<lparr>enc_iData := Some d\<rparr>) = actions run @ Encrypted dest msg # (acts2 @ acts) \<and>
      list_all is_write (acts2 @ acts)"
    using r3 a2' w2 wr by simp
  then have ex: "\<exists>acts'. actions (run3\<lparr>enc_iData := Some d\<rparr>) =
      actions run @ Encrypted dest msg # acts' \<and> list_all is_write acts'" by blast
  have "iPath d = dest" by (simp add: d_def ModelData_new_def)
  then show ?thesis using True e ex by (simp add: Let_def msg_def)
qed


text \<open>
  Claim C5, as the code has it. The source file is removed exactly when the task
  leaves an entry. When the source maps into memory, the entry is produced exactly when
  an output file opens, the image decodes and the envelope of the image is written;
  then the actions are that envelope, further writes (the times of the file, the
  thumbnail if it can be written) and the removal of the source, and nothing is
  unlinked. Otherwise the only action is to unlink the output path, and the source
  stays. When the source does not map, nothing happens.
\<close>

theorem EncryptTask_outcome:
  "(Removed (enc_iSourceFile task) \<in> set (actions (EncryptTask_performTask env task))) =
     (enc_iData (EncryptTask_performTask env task) \<noteq> None) \<and>
   (case g_mapped_file_new env (enc_iSourceFile task) of
      None \<Rightarrow> EncryptTask_performTask env task = EncryptRun_start
    | Some bytes \<Rightarrow>
        (case createFoilFile env (enc_iDestDir task) EncryptRun_start of
           (out, dest, run1) \<Rightarrow>
             (let produced =
                    (out \<and>
                     \<not> isNull (fromData (qimage env) bytes
                                 (format (mimeTypeForFile env (enc_iSourceFile task)))) \<and>
                     foilmsg_encrypt env dest (image_envelope env task bytes))
              in (enc_iData (EncryptTask_performTask env task) \<noteq> None) = produced \<and>
                 (produced \<longrightarrow>
                    (\<exists>acts. actions (EncryptTask_performTask env task) =
                         Encrypted dest (image_envelope env task bytes) # acts @
                         [Removed (enc_iSourceFile task)] \<and>
                       list_all is_write acts)) \<and>
                 (\<not> produced \<longrightarrow>
                    actions (EncryptTask_performTask env task) = [Unlinked dest]))))"
proof (cases "g_mapped_file_new env (enc_iSourceFile task)")
  case None
  then show ?thesis by (simp add: EncryptTask_performTask_def EncryptRun_start_def)
next
  case (Some bytes)
  obtain out dest run1 where c: "createFoilFile env (enc_iDestDir task) EncryptRun_start = (out, dest, run1)"
    by (cases "createFoilFile env (enc_iDestDir task) EncryptRun_start") auto
  from createFoilFile_run [OF c] obtain k where k: "run1 = EncryptRun_start\<lparr>rnd := k\<rparr>" by blast
  then have n1: "enc_iData run1 = None" and a1: "actions run1 = []"
    by (simp_all add: EncryptRun_start_def)
  define produced where "produced =
     (out \<and> \<not> isNull (fromData (qimage env) bytes (format (mimeTypeForFile env (enc_iSourceFile task)))) \<and>
      foilmsg_encrypt env dest (image_envelope env task bytes))"
  define run where "run = EncryptTask_performTask env task"
  have main: "(enc_iData run \<noteq> None) = produced \<and>
      (produced \<longrightarrow> (\<exists>acts. actions run =
           Encrypted dest (image_envelope env task bytes) # acts @ [Removed (enc_iSourceFile task)] \<and>
           list_all is_write acts)) \<and>
      (\<not> produced \<longrightarrow> actions run = [Unlinked dest])"
  proof (cases out)
    case False
    then have "run = run1\<lparr>actions := actions run1 @ [Unlinked dest]\<rparr>"
      using Some c n1 by (simp add: run_def EncryptTask_performTask_def Let_def)
    then show ?thesis using False n1 a1 by (simp add: produced_def)
  next
    case True
    define run2 where "run2 = encrypt_to env task bytes dest run1"
    have r: "run = (if enc_iData run2 \<noteq> None
        then run2\<lparr>actions := actions run2 @ [Removed (enc_iSourceFile task)]\<rparr>
        else run2\<lparr>actions := actions run2 @ [Unlinked dest]\<rparr>)"
      using Some c True by (simp add: run_def EncryptTask_performTask_def Let_def run2_def)
    from encrypt_to_outcome [OF n1, of env bytes task dest]
    have o: "(enc_iData run2 \<noteq> None) = produced"
      "\<not> produced \<Longrightarrow> run2 = run1"
      "produced \<Longrightarrow> \<exists>acts. actions run2 =
          actions run1 @ Encrypted dest (image_envelope env task bytes) # acts \<and> list_all is_write acts"
      using True by (simp_all add: Let_def produced_def run2_def)
    show ?thesis
    proof (cases produced)
      case p: True
      from o(3) [OF p] obtain acts where
        "actions run2 = Encrypted dest (image_envelope env task bytes) # acts" "list_all is_write acts"
        using a1 by auto
      then show ?thesis using r o(1) p by auto
    next
      case np: False
      then show ?thesis using r o(1) o(2) a1 by auto
    qed
  qed
  have rem: "(Removed (enc_iSourceFile task) \<in> set (actions run)) = (enc_iData run \<noteq> None)"
  proof (cases produced)
    case True
    then show ?thesis using main by auto
  next
    case False
    then show ?thesis using main by auto
  qed
  show ?thesis using Some c main rem by (simp add: Let_def produced_def run_def)
qed

text \<open>
  The theorem at the import of one picture: with a codec that writes, the entry is
  produced and the source removed; with a codec that fails, neither.
\<close>

theorem EncryptTask_outcome_witness:
  "g_mapped_file_new example_env (enc_iSourceFile example_import) = Some [1, 2, 3] \<and>
   enc_iData (EncryptTask_performTask example_env example_import) \<noteq> None \<and>
   Removed ''/home/user/a.jpg'' \<in> set (actions (EncryptTask_performTask example_env example_import)) \<and>
   enc_iData (EncryptTask_performTask
      (example_env\<lparr>foilmsg_encrypt := (\<lambda>path msg. False)\<rparr>) example_import) = None \<and>
   Removed ''/home/user/a.jpg'' \<notin> set (actions (EncryptTask_performTask
      (example_env\<lparr>foilmsg_encrypt := (\<lambda>path msg. False)\<rparr>) example_import))"
proof -
  have m: "g_mapped_file_new example_env (enc_iSourceFile example_import) = Some [1, 2, 3]"
    by (simp add: example_env_def example_import_def)
  have s: "enc_iSourceFile example_import = ''/home/user/a.jpg''" by (simp add: example_import_def)
  have 1: "enc_iData (EncryptTask_performTask example_env example_import) \<noteq> None"
    by code_simp
  have 2: "enc_iData (EncryptTask_performTask
      (example_env\<lparr>foilmsg_encrypt := (\<lambda>path msg. False)\<rparr>) example_import) = None"
    by code_simp
  from EncryptTask_outcome [of example_import example_env] 1 s
  have 3: "Removed ''/home/user/a.jpg'' \<in> set (actions (EncryptTask_performTask example_env example_import))"
    by simp
  from EncryptTask_outcome [of example_import "example_env\<lparr>foilmsg_encrypt := (\<lambda>path msg. False)\<rparr>"] 2 s
  have 4: "Removed ''/home/user/a.jpg'' \<notin> set (actions (EncryptTask_performTask
      (example_env\<lparr>foilmsg_encrypt := (\<lambda>path msg. False)\<rparr>) example_import))"
    by simp
  show ?thesis using m 1 2 3 4 by simp
qed

text \<open>
  The claim as written fails when a step after the envelope of the image fails: here
  the envelope of the thumbnail cannot be written. The entry is produced without a
  thumbnail name, the envelope of the image stays, and the source is removed.
\<close>

theorem EncryptTask_keeps_envelope_without_thumbnail:
  "(\<forall>msg. \<not> foilmsg_encrypt example_env_thumb_fails ''/vault/0000000000000011'' msg) \<and>
   map_option iThumbFile
     (enc_iData (EncryptTask_performTask example_env_thumb_fails example_import)) = Some [] \<and>
   map_option iPath
     (enc_iData (EncryptTask_performTask example_env_thumb_fails example_import)) =
     Some ''/vault/0000000000000010'' \<and>
   actions (EncryptTask_performTask example_env_thumb_fails example_import) =
     [Encrypted ''/vault/0000000000000010''
        (image_envelope example_env_thumb_fails example_import [1, 2, 3]),
      Utimes ''/vault/0000000000000010'',
      Removed ''/home/user/a.jpg'']"
proof -
  have 1: "\<forall>msg. \<not> foilmsg_encrypt example_env_thumb_fails ''/vault/0000000000000011'' msg"
    by (simp add: example_env_thumb_fails_def)
  have 2: "map_option iThumbFile
     (enc_iData (EncryptTask_performTask example_env_thumb_fails example_import)) = Some [] \<and>
   map_option iPath
     (enc_iData (EncryptTask_performTask example_env_thumb_fails example_import)) =
     Some ''/vault/0000000000000010'' \<and>
   actions (EncryptTask_performTask example_env_thumb_fails example_import) =
     [Encrypted ''/vault/0000000000000010''
        (image_envelope example_env_thumb_fails example_import [1, 2, 3]),
      Utimes ''/vault/0000000000000010'',
      Removed ''/home/user/a.jpg'']"
    by code_simp
  show ?thesis using 1 2 by blast
qed


end
